theory Spec2Isabelle
  imports Main
begin

section \<open>Characters and strings\<close>

text \<open>
  Python strings are sequences of Unicode code points. The model covers the code points
  0..255 (Latin-1), one \<^typ>\<open>char\<close> each, so that the section sign (code point 0xA7) is one
  character. The character classes below are the members of Python's classes in that range:
  \<^verbatim>\<open>str.isspace\<close> (which is also what \<^verbatim>\<open>\s\<close> and \<^verbatim>\<open>str.strip()\<close> use), the decimal digits
  of \<^verbatim>\<open>\d\<close>, \<^verbatim>\<open>str.isdigit\<close> (which also accepts the superscript digits), and the word
  characters of \<^verbatim>\<open>\w\<close> and \<^verbatim>\<open>\b\<close>.
\<close>

definition newline :: char where
  "newline = CHR 0x0A"

definition py_isspace :: "char \<Rightarrow> bool" where
  "py_isspace c = (c \<in> set [CHR 0x09, CHR 0x0A, CHR 0x0B, CHR 0x0C, CHR 0x0D,
                               CHR 0x1C, CHR 0x1D, CHR 0x1E, CHR 0x1F, CHR 0x20,
                               CHR 0x85, CHR 0xA0])"

definition ascii_digits :: string where
  "ascii_digits = ''0123456789''"

definition ascii_upper :: string where
  "ascii_upper = ''ABCDEFGHIJKLMNOPQRSTUVWXYZ''"

definition ascii_lower :: string where
  "ascii_lower = ''abcdefghijklmnopqrstuvwxyz''"

definition latin1_upper :: string where
  \<comment> \<open>0xC0..0xDE without the multiplication sign 0xD7\<close>
  "latin1_upper =
     [
      CHR 0xC0, CHR 0xC1, CHR 0xC2, CHR 0xC3, CHR 0xC4, CHR 0xC5, CHR 0xC6, CHR 0xC7,
      CHR 0xC8, CHR 0xC9, CHR 0xCA, CHR 0xCB, CHR 0xCC, CHR 0xCD, CHR 0xCE, CHR 0xCF,
      CHR 0xD0, CHR 0xD1, CHR 0xD2, CHR 0xD3, CHR 0xD4, CHR 0xD5, CHR 0xD6, CHR 0xD8,
      CHR 0xD9, CHR 0xDA, CHR 0xDB, CHR 0xDC, CHR 0xDD, CHR 0xDE]"

definition latin1_lower :: string where
  \<comment> \<open>0xE0..0xFE without the division sign 0xF7\<close>
  "latin1_lower =
     [
      CHR 0xE0, CHR 0xE1, CHR 0xE2, CHR 0xE3, CHR 0xE4, CHR 0xE5, CHR 0xE6, CHR 0xE7,
      CHR 0xE8, CHR 0xE9, CHR 0xEA, CHR 0xEB, CHR 0xEC, CHR 0xED, CHR 0xEE, CHR 0xEF,
      CHR 0xF0, CHR 0xF1, CHR 0xF2, CHR 0xF3, CHR 0xF4, CHR 0xF5, CHR 0xF6, CHR 0xF8,
      CHR 0xF9, CHR 0xFA, CHR 0xFB, CHR 0xFC, CHR 0xFD, CHR 0xFE]"

definition py_isdecimal :: "char \<Rightarrow> bool" where
  "py_isdecimal c = (c \<in> set ascii_digits)"

definition py_isdigit :: "char \<Rightarrow> bool" where
  "py_isdigit c = (c \<in> set (ascii_digits @ [CHR 0xB2, CHR 0xB3, CHR 0xB9]))"

definition py_isalnum :: "char \<Rightarrow> bool" where
  "py_isalnum c =
     (c \<in> set (ascii_digits @ ascii_upper @ ascii_lower
                @ [CHR 0xAA, CHR 0xB2, CHR 0xB3, CHR 0xB5, CHR 0xB9, CHR 0xBA, CHR 0xBC, CHR 0xBD, CHR 0xBE]
                @ latin1_upper @ [CHR 0xDF] @ latin1_lower @ [CHR 0xFF]))"

definition py_isword :: "char \<Rightarrow> bool" where
  "py_isword c = (py_isalnum c \<or> c = CHR ''_'')"

definition in_range :: "char \<Rightarrow> char \<Rightarrow> char \<Rightarrow> bool" where
  "in_range lo hi c = ((of_char lo :: nat) \<le> of_char c \<and> (of_char c :: nat) \<le> of_char hi)"

text \<open>
  Simple one-character case mappings, as the regular-expression engine uses them for
  case-insensitive matching: a cased Latin-1 letter and its other case are 32 apart. Three
  Latin-1 letters have an upper case outside Latin-1 (0xB5, 0xDF, 0xFF); \<open>py_upper\<close> leaves
  them unchanged, which is the same for every class of the program since none of them holds
  such a character.
\<close>

definition py_lower :: "char \<Rightarrow> char" where
  "py_lower c =
     (if c \<in> set (ascii_upper @ latin1_upper) then char_of (of_char c + (32::nat)) else c)"

definition py_upper :: "char \<Rightarrow> char" where
  "py_upper c =
     (if c \<in> set (ascii_lower @ latin1_lower) then char_of (of_char c - (32::nat)) else c)"

text \<open>\<^verbatim>\<open>str.upper()\<close> as used on the TYPE attribute: the result is only compared with
  ASCII keys, and no Latin-1 character other than an ASCII letter has an upper case that
  occurs in one of them.\<close>

definition upper :: "string \<Rightarrow> string" where
  "upper s = map (\<lambda>c. if c \<in> set ascii_lower then py_upper c else c) s"

definition py_strip :: "string \<Rightarrow> string" where
  "py_strip s = dropWhile py_isspace (rev (dropWhile py_isspace (rev s)))"

fun join :: "string \<Rightarrow> string list \<Rightarrow> string" where
  "join sep [] = []"
| "join sep [x] = x"
| "join sep (x # y # ys) = x @ sep @ join sep (y # ys)"

fun split_nl :: "string \<Rightarrow> string list" where
  "split_nl [] = [[]]"
| "split_nl (c # cs) =
     (if c = newline then [] # split_nl cs
      else (case split_nl cs of l # ls \<Rightarrow> (c # l) # ls | [] \<Rightarrow> [[c]]))"

definition startswith :: "string \<Rightarrow> string \<Rightarrow> bool" where
  "startswith s pre = (take (length pre) s = pre)"

section \<open>Regular expressions\<close>

text \<open>
  The patterns of the program are values of \<open>regex\<close>; \<open>mt\<close> is a backtracking matcher
  that returns, in the order in which Python's engine tries them, every way the pattern
  can match at a position. A position is the character before it (for \<^verbatim>\<open>^\<close> and
  \<^verbatim>\<open>\b\<close>), the rest of the subject and the groups captured so far. The first element
  of the result is the match Python reports. \<^verbatim>\<open>r+\<close> is \<open>Seq r (Star r)\<close> and
  \<^verbatim>\<open>r+?\<close> is \<open>Seq r (LStar r)\<close>. An iteration of a star that consumes nothing is
  not repeated; no starred pattern of the program can match the empty string.
\<close>

datatype cset = CChr char | CRng char char | CDig | CSpc | CWrd

fun in_cset :: "cset \<Rightarrow> char \<Rightarrow> bool" where
  "in_cset (CChr a) c = (c = a)"
| "in_cset (CRng lo hi) c = in_range lo hi c"
| "in_cset CDig c = py_isdecimal c"
| "in_cset CSpc c = py_isspace c"
| "in_cset CWrd c = py_isword c"

datatype regex =
    Lit char | Cls "cset list" | Dot | Bol | Eol | Wb
  | Seq regex regex | Alt regex regex | Star regex | LStar regex | Grp nat regex

record flags =
  ignorecase :: bool
  multiline :: bool

definition no_flags :: flags where
  "no_flags = \<lparr>ignorecase = False, multiline = False\<rparr>"

definition IGNORECASE :: flags where
  "IGNORECASE = \<lparr>ignorecase = True, multiline = False\<rparr>"

definition MULTILINE :: flags where
  "MULTILINE = \<lparr>ignorecase = False, multiline = True\<rparr>"

definition lit_eq :: "flags \<Rightarrow> char \<Rightarrow> char \<Rightarrow> bool" where
  "lit_eq f a c = (if ignorecase f then py_lower c = py_lower a else c = a)"

definition in_cls :: "flags \<Rightarrow> cset list \<Rightarrow> char \<Rightarrow> bool" where
  "in_cls f xs c =
     (if ignorecase f
      then list_ex (\<lambda>x. in_cset x (py_lower c)) xs \<or> list_ex (\<lambda>x. in_cset x (py_upper (py_lower c))) xs
      else list_ex (\<lambda>x. in_cset x c) xs)"

type_synonym mstate = "char option \<times> string \<times> (nat \<times> string) list"

definition word_before :: "char option \<Rightarrow> bool" where
  "word_before p = (case p of None \<Rightarrow> False | Some c \<Rightarrow> py_isword c)"

definition word_after :: "string \<Rightarrow> bool" where
  "word_after s = (case s of [] \<Rightarrow> False | c # _ \<Rightarrow> py_isword c)"

function mt :: "flags \<Rightarrow> regex \<Rightarrow> mstate \<Rightarrow> mstate list" where
  "mt f (Lit a) (p, s, g) =
     (case s of [] \<Rightarrow> [] | c # cs \<Rightarrow> if lit_eq f a c then [(Some c, cs, g)] else [])"
| "mt f (Cls xs) (p, s, g) =
     (case s of [] \<Rightarrow> [] | c # cs \<Rightarrow> if in_cls f xs c then [(Some c, cs, g)] else [])"
| "mt f Dot (p, s, g) =
     (case s of [] \<Rightarrow> [] | c # cs \<Rightarrow> if c \<noteq> newline then [(Some c, cs, g)] else [])"
| "mt f Bol (p, s, g) =
     (if p = None \<or> (multiline f \<and> p = Some newline) then [(p, s, g)] else [])"
| "mt f Eol (p, s, g) =
     (if s = [] \<or> s = [newline] \<or> (multiline f \<and> take 1 s = [newline]) then [(p, s, g)] else [])"
| "mt f Wb (p, s, g) =
     (if word_before p \<noteq> word_after s then [(p, s, g)] else [])"
| "mt f (Seq a b) st = concat (map (mt f b) (mt f a st))"
| "mt f (Alt a b) st = mt f a st @ mt f b st"
| "mt f (Star r) st =
     concat (map (\<lambda>st'. if length (fst (snd st')) < length (fst (snd st))
                          then mt f (Star r) st' else [])
                 (mt f r st)) @ [st]"
| "mt f (LStar r) st =
     st # concat (map (\<lambda>st'. if length (fst (snd st')) < length (fst (snd st))
                               then mt f (LStar r) st' else [])
                      (mt f r st))"
| "mt f (Grp n r) (p, s, g) =
     map (\<lambda>(p', s', g'). (p', s', (n, take (length s - length s') s) # g')) (mt f r (p, s, g))"
  by pat_completeness auto
termination
  by (relation "measures [\<lambda>(f, r, st). size r, \<lambda>(f, r, st). length (fst (snd st))]") auto

declare mt.simps(9) [simp del]
declare mt.simps(10) [simp del]

abbreviation Plus :: "regex \<Rightarrow> regex" where
  "Plus r \<equiv> Seq r (Star r)"

abbreviation LPlus :: "regex \<Rightarrow> regex" where
  "LPlus r \<equiv> Seq r (LStar r)"

fun seqs :: "regex list \<Rightarrow> regex" where
  "seqs [] = Star (Cls [])"
| "seqs [r] = r"
| "seqs (r # r' # rs) = Seq r (seqs (r' # rs))"

fun alts :: "regex list \<Rightarrow> regex" where
  "alts [] = Cls []"
| "alts [r] = r"
| "alts (r # r' # rs) = Alt r (alts (r' # rs))"

definition lits :: "string \<Rightarrow> regex" where
  "lits s = seqs (map Lit s)"

text \<open>A group's text, the empty string when the group took no part in the match (as a
  replacement template expands it).\<close>

definition grp_of :: "(nat \<times> string) list \<Rightarrow> nat \<Rightarrow> string" where
  "grp_of g n = (case map_of g n of Some s \<Rightarrow> s | None \<Rightarrow> [])"

text \<open>\<^verbatim>\<open>re.match\<close>: the first match at the start of the subject, as its groups.\<close>

definition re_match :: "flags \<Rightarrow> regex \<Rightarrow> string \<Rightarrow> (nat \<times> string) list option" where
  "re_match f r s = (case mt f r (None, s, []) of [] \<Rightarrow> None | (p, s', g) # _ \<Rightarrow> Some g)"

text \<open>
  \<^verbatim>\<open>re.sub\<close>: scan from the left; where the pattern matches, emit the expanded template
  and go on after the match; elsewhere copy one character. The model is for patterns that
  consume at least one character, which every pattern of the program does (lemma
  \<open>all_patterns_consume\<close> below); a match that consumes nothing is treated as no match.
\<close>

datatype ritem = RLit string | RGrp nat

fun expand :: "ritem list \<Rightarrow> (nat \<times> string) list \<Rightarrow> string" where
  "expand [] g = []"
| "expand (RLit s # t) g = s @ expand t g"
| "expand (RGrp n # t) g = grp_of g n @ expand t g"

function sub_from :: "flags \<Rightarrow> regex \<Rightarrow> ritem list \<Rightarrow> char option \<Rightarrow> string \<Rightarrow> string" where
  "sub_from f r t p s =
     (let m = mt f r (p, s, []) in
      if m \<noteq> [] \<and> length (fst (snd (hd m))) < length s
      then expand t (snd (snd (hd m))) @ sub_from f r t (fst (hd m)) (fst (snd (hd m)))
      else if s = [] then []
      else hd s # sub_from f r t (Some (hd s)) (tl s))"
  by pat_completeness auto
termination
  by (relation "measure (\<lambda>(f, r, t, p, s). length s)") auto

declare sub_from.simps [simp del]

definition re_sub :: "flags \<Rightarrow> regex \<Rightarrow> ritem list \<Rightarrow> string \<Rightarrow> string" where
  "re_sub f r t s = sub_from f r t None s"

abbreviation digit :: regex where
  "digit \<equiv> Cls [CDig]"

abbreviation space :: regex where
  "space \<equiv> Cls [CSpc]"

abbreviation word :: regex where
  "word \<equiv> Cls [CWrd]"

section \<open>The text pipeline: \<^verbatim>\<open>abs_part7_pdf_parser.py\<close>\<close>

subsection \<open>\<^verbatim>\<open>clean_text\<close>\<close>

definition re_blank_lines :: regex where
  \<comment> \<open>\<^verbatim>\<open>\n\s*\n\s*\n\<close>\<close>
  "re_blank_lines = seqs [Lit newline, Star space, Lit newline, Star space, Lit newline]"

definition re_hspace :: regex where
  \<comment> \<open>\<^verbatim>\<open>[ \t]+\<close>\<close>
  "re_hspace = Plus (Cls [CChr CHR '' '', CChr (CHR 0x09)])"

definition re_hyphen :: regex where
  \<comment> \<open>\<^verbatim>\<open>(\w+)-\s*\n\s*(\w+)\<close>\<close>
  "re_hyphen = seqs [Grp 1 (Plus word), Lit CHR ''-'', Star space, Lit newline, Star space,
                     Grp 2 (Plus word)]"

definition re_page :: regex where
  \<comment> \<open>\<^verbatim>\<open>\n\s*Page \d+.*?\n\<close>\<close>
  "re_page = seqs [Lit newline, Star space, lits ''Page '', Plus digit, LStar Dot, Lit newline]"

definition re_abs :: regex where
  \<comment> \<open>\<^verbatim>\<open>\n\s*ABS.*?\n\<close>\<close>
  "re_abs = seqs [Lit newline, Star space, lits ''ABS'', LStar Dot, Lit newline]"

definition re_part7 :: regex where
  \<comment> \<open>\<^verbatim>\<open>\n\s*PART 7.*?\n\<close>\<close>
  "re_part7 = seqs [Lit newline, Star space, lits ''PART 7'', LStar Dot, Lit newline]"

definition clean_text :: "string \<Rightarrow> string" where
  "clean_text text0 =
     (let text1 = re_sub no_flags re_blank_lines [RLit [newline, newline]] text0;
          text2 = re_sub no_flags re_hspace [RLit '' ''] text1;
          text3 = re_sub no_flags re_hyphen [RGrp 1, RGrp 2] text2;
          text4 = re_sub no_flags re_page [RLit [newline]] text3;
          text5 = re_sub no_flags re_abs [RLit [newline]] text4;
          text6 = re_sub no_flags re_part7 [RLit [newline]] text5
      in py_strip text6)"

subsection \<open>\<^verbatim>\<open>identify_sections\<close>\<close>

text \<open>
  The pattern table, in the order of the source. The two dash classes of the source hold,
  next to the hyphen, the code points U+201A, 0xC4 and 0xEC; the first is outside Latin-1
  and so outside the model.
\<close>

definition title_rest :: "regex list" where
  \<comment> \<open>\<^verbatim>\<open>(.+?)$\<close>\<close>
  "title_rest = [Grp 2 (LPlus Dot), Eol]"

definition dotted_number :: regex where
  \<comment> \<open>\<^verbatim>\<open>\d+(?:\.\d+)*\<close>\<close>
  "dotted_number = Seq (Plus digit) (Star (Seq (Lit CHR ''.'') (Plus digit)))"

definition dash :: regex where
  "dash = Cls [CChr CHR ''-'', CChr (CHR 0xC4), CChr (CHR 0xEC)]"

definition pat_chapter :: regex where
  \<comment> \<open>\<^verbatim>\<open>^CHAPTER (\d+)\s+(.+?)$\<close>\<close>
  "pat_chapter = seqs ([Bol, lits ''CHAPTER '', Grp 1 (Plus digit), Plus space] @ title_rest)"

definition pat_section :: regex where
  \<comment> \<open>\<^verbatim>\<open>^SECTION (\d+)\s+(.+?)$\<close>\<close>
  "pat_section = seqs ([Bol, lits ''SECTION '', Grp 1 (Plus digit), Plus space] @ title_rest)"

definition pat_main_section :: regex where
  \<comment> \<open>\<^verbatim>\<open>^(\d+)\s+(.+?)$\<close>\<close>
  "pat_main_section = seqs ([Bol, Grp 1 (Plus digit), Plus space] @ title_rest)"

definition pat_subsection :: regex where
  \<comment> \<open>\<^verbatim>\<open>^(\d+\.\d+)\s+(.+?)$\<close>\<close>
  "pat_subsection =
     seqs ([Bol, Grp 1 (seqs [Plus digit, Lit CHR ''.'', Plus digit]), Plus space] @ title_rest)"

definition pat_subsubsection :: regex where
  \<comment> \<open>\<^verbatim>\<open>^(\d+\.\d+\.\d+)\s+(.+?)$\<close>\<close>
  "pat_subsubsection =
     seqs ([Bol, Grp 1 (seqs [Plus digit, Lit CHR ''.'', Plus digit, Lit CHR ''.'', Plus digit]),
            Plus space] @ title_rest)"

definition pat_item :: regex where
  \<comment> \<open>\<^verbatim>\<open>^([A-Z])\.\s+(.+?)$\<close>\<close>
  "pat_item =
     seqs ([Bol, Grp 1 (Cls [CRng CHR ''A'' CHR ''Z'']), Lit CHR ''.'', Plus space] @ title_rest)"

definition pat_table :: regex where
  \<comment> \<open>\<^verbatim>\<open>^TABLE (\d+(?:\.\d+)*)\s*[-...]\s*(.+?)$\<close>\<close>
  "pat_table =
     seqs ([Bol, lits ''TABLE '', Grp 1 dotted_number, Star space, dash, Star space] @ title_rest)"

definition pat_figure :: regex where
  \<comment> \<open>\<^verbatim>\<open>^FIGURE (\d+(?:\.\d+)*)\s*[-...]\s*(.+?)$\<close>\<close>
  "pat_figure =
     seqs ([Bol, lits ''FIGURE '', Grp 1 dotted_number, Star space, dash, Star space] @ title_rest)"

definition patterns :: "(regex \<times> string) list" where
  "patterns =
     [(pat_chapter, ''chapter''),
      (pat_section, ''section''),
      (pat_main_section, ''main_section''),
      (pat_subsection, ''subsection''),
      (pat_subsubsection, ''subsubsection''),
      (pat_item, ''item''),
      (pat_table, ''table''),
      (pat_figure, ''figure'')]"

record section_rec =
  type :: string
  number :: string
  title :: string
  content :: string
  full_header :: string

text \<open>The inner loop over the pattern table: the first pattern that matches the line
  gives the type, and the first two groups give number and title.\<close>

fun match_patterns :: "(regex \<times> string) list \<Rightarrow> string \<Rightarrow> (string \<times> string \<times> string) option" where
  "match_patterns [] line = None"
| "match_patterns ((pattern, section_type) # ps) line =
     (case re_match IGNORECASE pattern line of
        Some g \<Rightarrow> Some (section_type, grp_of g 1, grp_of g 2)
      | None \<Rightarrow> match_patterns ps line)"

text \<open>The state of the outer loop: the sections appended so far, the current section and
  the content buffer.\<close>

type_synonym scan_state = "section_rec list \<times> section_rec option \<times> string list"

definition save_section :: "section_rec list \<Rightarrow> section_rec option \<Rightarrow> string list \<Rightarrow> section_rec list" where
  \<comment> \<open>\<^verbatim>\<open>if current_section and content_buffer: ...; sections.append(current_section)\<close>\<close>
  "save_section sections current_section content_buffer =
     (case current_section of
        None \<Rightarrow> sections
      | Some cur \<Rightarrow>
          if content_buffer \<noteq> []
          then sections @ [cur\<lparr>content := py_strip (join [newline] content_buffer)\<rparr>]
          else sections)"

definition process_line :: "scan_state \<Rightarrow> string \<Rightarrow> scan_state" where
  \<comment> \<open>the body of \<^verbatim>\<open>for line in lines\<close>\<close>
  "process_line st raw =
     (case st of (sections, current_section, content_buffer) \<Rightarrow>
        (let line = py_strip raw in
         if line = [] then (sections, current_section, content_buffer)
         else
           (case match_patterns patterns line of
              Some (section_type, num, tit) \<Rightarrow>
                (save_section sections current_section content_buffer,
                 Some \<lparr>type = section_type, number = num, title = py_strip tit,
                       content = [], full_header = line\<rparr>,
                 [])
            | None \<Rightarrow> (sections, current_section, content_buffer @ [line]))))"

definition identify_sections :: "string \<Rightarrow> section_rec list" where
  "identify_sections text0 =
     (case foldl process_line ([], None, []) (split_nl text0) of
        (sections, current_section, content_buffer) \<Rightarrow>
          save_section sections current_section content_buffer)"

subsection \<open>\<^verbatim>\<open>format_content\<close> and \<^verbatim>\<open>format_for_vector_storage\<close>\<close>

definition re_bullet :: regex where
  \<comment> \<open>\<^verbatim>\<open>^[-...]\s+\<close>; the class holds the hyphen, U+201A (outside the model), 0xC4 and 0xA2\<close>
  "re_bullet = seqs [Bol, Cls [CChr CHR ''-'', CChr (CHR 0xC4), CChr (CHR 0xA2)], Plus space]"

definition re_letter_item :: regex where
  \<comment> \<open>\<^verbatim>\<open>^\s*\([a-z]\)\s+\<close>\<close>
  "re_letter_item =
     seqs [Bol, Star space, Lit CHR ''('', Cls [CRng CHR ''a'' CHR ''z''], Lit CHR '')'', Plus space]"

definition re_number_item :: regex where
  \<comment> \<open>\<^verbatim>\<open>^\s*\d+\)\s+\<close>\<close>
  "re_number_item = seqs [Bol, Star space, Plus digit, Lit CHR '')'', Plus space]"

definition re_xref :: regex where
  \<comment> \<open>\<^verbatim>\<open>\b(\d+\.\d+\.\d+)\b\<close>\<close>
  "re_xref =
     seqs [Wb, Grp 1 (seqs [Plus digit, Lit CHR ''.'', Plus digit, Lit CHR ''.'', Plus digit]), Wb]"

definition re_section_ref :: regex where
  \<comment> \<open>\<^verbatim>\<open>\b(Section \d+)\b\<close>\<close>
  "re_section_ref = seqs [Wb, Grp 1 (Seq (lits ''Section '') (Plus digit)), Wb]"

definition re_chapter_ref :: regex where
  \<comment> \<open>\<^verbatim>\<open>\b(Chapter \d+)\b\<close>\<close>
  "re_chapter_ref = seqs [Wb, Grp 1 (Seq (lits ''Chapter '') (Plus digit)), Wb]"

definition re_mandatory :: regex where
  \<comment> \<open>\<^verbatim>\<open>\b(shall|must|required|mandatory)\b\<close>\<close>
  "re_mandatory =
     seqs [Wb, Grp 1 (alts [lits ''shall'', lits ''must'', lits ''required'', lits ''mandatory'']), Wb]"

definition re_permissive :: regex where
  \<comment> \<open>\<^verbatim>\<open>\b(may|optional|recommended)\b\<close>\<close>
  "re_permissive =
     seqs [Wb, Grp 1 (alts [lits ''may'', lits ''optional'', lits ''recommended'']), Wb]"

definition format_lists :: "string \<Rightarrow> string" where
  "format_lists c0 =
     (let c1 = re_sub MULTILINE re_bullet [RLit ''- ''] c0;
          c2 = re_sub MULTILINE re_letter_item [RLit ''  - ''] c1
      in re_sub MULTILINE re_number_item [RLit ''  1. ''] c2)"

definition format_references :: "string \<Rightarrow> string" where
  "format_references c0 =
     (let c1 = re_sub no_flags re_xref [RLit ''**'', RGrp 1, RLit ''**''] c0;
          c2 = re_sub no_flags re_section_ref [RLit ''**'', RGrp 1, RLit ''**''] c1
      in re_sub no_flags re_chapter_ref [RLit ''**'', RGrp 1, RLit ''**''] c2)"

definition format_emphasis :: "string \<Rightarrow> string" where
  "format_emphasis c0 =
     (let c1 = re_sub IGNORECASE re_mandatory [RLit ''**'', RGrp 1, RLit ''**''] c0
      in re_sub IGNORECASE re_permissive [RLit ''*'', RGrp 1, RLit ''*''] c1)"

definition format_content :: "string \<Rightarrow> string" where
  "format_content c = format_emphasis (format_references (format_lists c))"

definition heading_of :: "section_rec \<Rightarrow> string" where
  "heading_of s =
     (if type s = ''chapter'' then ''# Chapter '' @ number s @ '': '' @ title s
      else if type s = ''section'' then ''## Section '' @ number s @ '': '' @ title s
      else if type s = ''main_section'' then ''### '' @ number s @ '' '' @ title s
      else if type s = ''subsection'' then ''#### '' @ number s @ '' '' @ title s
      else if type s = ''subsubsection'' then ''##### '' @ number s @ '' '' @ title s
      else if type s = ''table'' then ''### Table '' @ number s @ '' - '' @ title s
      else if type s = ''figure'' then ''### Figure '' @ number s @ '' - '' @ title s
      else if type s = ''item'' then ''**'' @ number s @ ''.** '' @ title s
      else ''### '' @ full_header s)"

fun section_blocks :: "section_rec list \<Rightarrow> string list" where
  "section_blocks [] = []"
| "section_blocks (s # ss) =
     [[newline] @ heading_of s @ [newline]]
     @ (if content s \<noteq> [] then [format_content (content s) @ [newline]] else [])
     @ section_blocks ss"

definition format_for_vector_storage :: "section_rec list \<Rightarrow> string" where
  "format_for_vector_storage sections =
     join [newline]
       ([''# ABS Rules for Survey After Construction - Part 7'' @ [newline],
         ''*American Bureau of Shipping Classification Rules*'' @ [newline]]
        @ section_blocks sections)"

subsection \<open>\<^verbatim>\<open>parse_full_document\<close>\<close>

text \<open>
  The opened document, as far as the parser reads it: for each page either its text or the
  fact that reading it raises, and the bookmarks (level, title, page), or the fact that
  reading them raises. A document that cannot be opened is \<open>None\<close>.
\<close>

datatype page = PageText string | PageError

record pdf_doc =
  pages :: "page list"
  bookmarks :: "(int \<times> string \<times> int) list option"

definition extract_text_from_page :: "page \<Rightarrow> string" where
  "extract_text_from_page pg = (case pg of PageText t \<Rightarrow> t | PageError \<Rightarrow> [])"

text \<open>The loop over the pages, with \<open>all_text\<close> as its state.\<close>

definition add_page :: "string list \<Rightarrow> page \<Rightarrow> string list" where
  "add_page all_text pg =
     (let page_text = extract_text_from_page pg in
      if page_text \<noteq> []
      then (let cleaned_text = clean_text page_text in
            if cleaned_text \<noteq> [] then all_text @ [cleaned_text] else all_text)
      else all_text)"

definition full_text :: "page list \<Rightarrow> string" where
  "full_text ps = join [newline, newline] (foldl add_page [] ps)"

fun nat_digits :: "nat \<Rightarrow> string" where
  "nat_digits n =
     (if n < 10 then [char_of (48 + n)] else nat_digits (n div 10) @ [char_of (48 + n mod 10)])"

definition str_int :: "int \<Rightarrow> string" where
  "str_int i = (if i < 0 then CHR ''-'' # nat_digits (nat (- i)) else nat_digits (nat i))"

definition toc_line :: "int \<times> string \<times> int \<Rightarrow> string" where
  "toc_line e =
     (case e of (level, ttl, pg) \<Rightarrow>
        concat (replicate (nat (level - 1)) ''  '') @ ''- '' @ ttl @ '' (Page '' @ str_int pg @ '')'')"

definition extract_table_of_contents :: "pdf_doc \<Rightarrow> string" where
  "extract_table_of_contents doc =
     (case bookmarks doc of
        None \<Rightarrow> []
      | Some toc \<Rightarrow>
          if toc \<noteq> []
          then join [newline] ([''## Table of Contents'' @ [newline]] @ map toc_line toc @ [[newline]])
          else [])"

definition parse_full_document :: "pdf_doc option \<Rightarrow> string" where
  "parse_full_document opened =
     (case opened of
        None \<Rightarrow> []
      | Some doc \<Rightarrow>
          (let sections = identify_sections (full_text (pages doc));
               toc = extract_table_of_contents doc;
               formatted_content = format_for_vector_storage sections
           in toc @ formatted_content))"

section \<open>The tree pipeline: \<^verbatim>\<open>ecfr_xml_to_markdown.py\<close>\<close>

text \<open>An element of the parsed tree, as \<^verbatim>\<open>xml.etree.ElementTree\<close> gives it: tag,
  attributes, the text before the first child, the text after the element's end tag, and
  the children.\<close>

datatype element =
  Element (tag: string) (attrib: "(string \<times> string) list") (etext: "string option")
          (tail: "string option") (children: "element list")

definition get_attr :: "element \<Rightarrow> string \<Rightarrow> string \<Rightarrow> string" where
  \<comment> \<open>\<^verbatim>\<open>element.get(key, default)\<close>\<close>
  "get_attr e k d = (case map_of (attrib e) k of Some v \<Rightarrow> v | None \<Rightarrow> d)"

definition findall :: "element \<Rightarrow> string \<Rightarrow> element list" where
  "findall e t = filter (\<lambda>c. tag c = t) (children e)"

definition find_child :: "element \<Rightarrow> string \<Rightarrow> element option" where
  \<comment> \<open>\<^verbatim>\<open>element.find(tag)\<close>: the first child with the tag\<close>
  "find_child e t = (case findall e t of [] \<Rightarrow> None | c # _ \<Rightarrow> Some c)"

definition opt_text :: "string option \<Rightarrow> string" where
  "opt_text t = (case t of None \<Rightarrow> [] | Some s \<Rightarrow> s)"

subsection \<open>\<^verbatim>\<open>clean_text\<close> and \<^verbatim>\<open>extract_text_content\<close>\<close>

definition re_ws_run :: regex where
  \<comment> \<open>\<^verbatim>\<open>\s+\<close>\<close>
  "re_ws_run = Plus space"

definition punct :: "cset list" where
  \<comment> \<open>\<^verbatim>\<open>[.,:;!?]\<close>\<close>
  "punct = map CChr ''.,:;!?''"

definition re_space_before_punct :: regex where
  \<comment> \<open>\<^verbatim>\<open>\s+([.,:;!?])\<close>\<close>
  "re_space_before_punct = Seq (Plus space) (Grp 1 (Cls punct))"

definition re_sentence_end :: regex where
  \<comment> \<open>\<^verbatim>\<open>([.!?])\s*([A-Z])\<close>\<close>
  "re_sentence_end =
     seqs [Grp 1 (Cls (map CChr ''.!?'')), Star space, Grp 2 (Cls [CRng CHR ''A'' CHR ''Z''])]"

definition ecfr_clean_text :: "string \<Rightarrow> string" where
  "ecfr_clean_text text0 =
     (if text0 = [] then []
      else
        (let text1 = re_sub no_flags re_ws_run [RLit '' ''] (py_strip text0);
             text2 = re_sub no_flags re_space_before_punct [RGrp 1] text1
         in re_sub no_flags re_sentence_end [RGrp 1, RLit '' '', RGrp 2] text2))"

definition inline_markup :: "element \<Rightarrow> string \<Rightarrow> string" where
  \<comment> \<open>what the loop of \<^verbatim>\<open>extract_text_content\<close> appends for a child with inner text \<open>t\<close>\<close>
  "inline_markup child t =
     (if tag child = ''E'' then
        (let emphasis_type = get_attr child ''T'' ''03'' in
         if emphasis_type \<in> set [''03'', ''04''] then ''*'' @ t @ ''*''
         else if emphasis_type \<in> set [''01'', ''02''] then ''**'' @ t @ ''**''
         else t)
      else if tag child = ''I'' then ''*'' @ t @ ''*''
      else if tag child = ''SU'' then ''^'' @ t @ ''^''
      else if tag child = ''SB'' then ''_'' @ t @ ''_''
      else t)"

fun extract_text_content :: "element \<Rightarrow> string" where
  "extract_text_content (Element tg at tx ta ch) =
     ecfr_clean_text
       (concat (opt_text tx #
                map (\<lambda>child. inline_markup child (extract_text_content child) @ opt_text (tail child))
                    ch))"

subsection \<open>Headings\<close>

definition heading_levels :: "(string \<times> nat) list" where
  "heading_levels =
     [(''TITLE'', 1), (''CHAPTER'', 2), (''SUBCHAP'', 3), (''PART'', 4), (''SUBPART'', 5),
      (''SECTION'', 6)]"

definition get_heading_level :: "string \<Rightarrow> nat" where
  "get_heading_level div_type = (case map_of heading_levels div_type of Some l \<Rightarrow> l | None \<Rightarrow> 6)"

definition section_sign :: char where
  "section_sign = CHR 0xA7"

definition str_isdigit :: "string \<Rightarrow> bool" where
  \<comment> \<open>\<^verbatim>\<open>str.isdigit()\<close>: not empty, and every character a digit\<close>
  "str_isdigit s = (s \<noteq> [] \<and> list_all py_isdigit s)"

definition format_section_number :: "string \<Rightarrow> string" where
  "format_section_number section_num =
     (if startswith section_num [section_sign] then section_num
      else if str_isdigit (filter (\<lambda>c. c \<noteq> CHR ''-'') (filter (\<lambda>c. c \<noteq> CHR ''.'') section_num))
           then [section_sign] @ '' '' @ section_num
      else section_num)"

subsection \<open>Blocks\<close>

definition process_paragraph :: "element \<Rightarrow> string" where
  "process_paragraph p_element =
     (let t = extract_text_content p_element in
      if t \<noteq> [] then [newline] @ t @ [newline] else [])"

definition process_citation :: "element \<Rightarrow> string" where
  "process_citation cita_element =
     (let t = extract_text_content cita_element in
      if t \<noteq> [] then [newline] @ ''*'' @ t @ ''*'' @ [newline] else [])"

definition process_authority :: "element \<Rightarrow> string" where
  "process_authority auth_element =
     join [newline]
       ((case find_child auth_element ''HED'' of
           None \<Rightarrow> []
         | Some hed_element \<Rightarrow> [[newline] @ ''**'' @ extract_text_content hed_element @ ''**''])
        @ (case find_child auth_element ''PSPACE'' of
             None \<Rightarrow> []
           | Some pspace_element \<Rightarrow> [extract_text_content pspace_element @ [newline]]))"

definition process_source :: "element \<Rightarrow> string" where
  "process_source source_element =
     join [newline]
       ((case find_child source_element ''HED'' of
           None \<Rightarrow> []
         | Some hed_element \<Rightarrow> [[newline] @ ''**'' @ extract_text_content hed_element @ ''**''])
        @ (case find_child source_element ''PSPACE'' of
             None \<Rightarrow> []
           | Some pspace_element \<Rightarrow> [extract_text_content pspace_element @ [newline]]))"

definition process_editorial_note :: "element \<Rightarrow> string" where
  "process_editorial_note ednote_element =
     (let content0 =
            (case find_child ednote_element ''HED'' of
               None \<Rightarrow> []
             | Some hed_element \<Rightarrow> [[newline] @ ''**'' @ extract_text_content hed_element @ ''**''])
            @ map extract_text_content
                (filter (\<lambda>child. tag child = ''PSPACE'' \<or> tag child = ''P'') (children ednote_element))
      in join [newline] (if content0 \<noteq> [] then content0 @ [[]] else content0))"

subsection \<open>\<^verbatim>\<open>process_division\<close>\<close>

text \<open>
  \<^verbatim>\<open>current_context\<close> is a dictionary from level names to the heading seen last at that
  level. \<^verbatim>\<open>process_division\<close> writes it and passes it on; the model threads it through
  the recursion. (The parameter \<^verbatim>\<open>level\<close> of the source is passed down and never read.)
\<close>

type_synonym current_context = "(string \<times> string) list"

definition dict_set :: "(string \<times> string) list \<Rightarrow> string \<Rightarrow> string \<Rightarrow> (string \<times> string) list" where
  \<comment> \<open>\<^verbatim>\<open>d[k] = v\<close>\<close>
  "dict_set d k v =
     (if k \<in> set (map fst d) then map (\<lambda>kv. if fst kv = k then (k, v) else kv) d
      else d @ [(k, v)])"

definition initial_context :: current_context where
  "initial_context =
     [(''title'', []), (''chapter'', []), (''part'', []), (''subpart'', []), (''section'', [])]"

definition update_context :: "current_context \<Rightarrow> string \<Rightarrow> string \<Rightarrow> current_context" where
  "update_context ctx div_type heading_text =
     (if div_type = ''TITLE'' then dict_set ctx ''title'' heading_text
      else if div_type = ''CHAPTER'' then dict_set ctx ''chapter'' heading_text
      else if div_type = ''PART'' then dict_set ctx ''part'' heading_text
      else if div_type = ''SUBPART'' then dict_set ctx ''subpart'' heading_text
      else if div_type = ''SECTION'' then dict_set ctx ''section'' heading_text
      else ctx)"

definition heading_line :: "string \<Rightarrow> string \<Rightarrow> string" where
  \<comment> \<open>the markdown heading \<^verbatim>\<open>process_division\<close> appends for a division of type \<open>div_type\<close>\<close>
  "heading_line div_type heading_text =
     (let heading_level = min (get_heading_level div_type) 6;
          heading_text' = (if div_type = ''SECTION'' then format_section_number heading_text
                           else heading_text)
      in [newline] @ replicate heading_level CHR ''#'' @ '' '' @ heading_text' @ [newline])"

definition is_child_div :: "string \<Rightarrow> element \<Rightarrow> bool" where
  \<comment> \<open>\<^verbatim>\<open>child_div.tag.startswith('DIV') and child_div.tag != div_element.tag\<close>\<close>
  "is_child_div parent_tag child_div = (startswith (tag child_div) ''DIV'' \<and> tag child_div \<noteq> parent_tag)"

function process_division :: "current_context \<Rightarrow> element \<Rightarrow> string \<times> current_context"
  and process_child_divs :: "string \<Rightarrow> current_context \<Rightarrow> element list \<Rightarrow> string list \<times> current_context"
where
  "process_division ctx (Element tg at tx ta ch) =
     (let div_element = Element tg at tx ta ch;
          div_type = upper (get_attr div_element ''TYPE'' []);
          heading =
            (case find_child div_element ''HEAD'' of
               None \<Rightarrow> ([], ctx)
             | Some head_element \<Rightarrow>
                 (let heading_text = extract_text_content head_element
                  in ([heading_line div_type heading_text],
                      update_context ctx div_type heading_text)));
          content1 = fst heading;
          content2 =
            (case find_child div_element ''AUTH'' of
               None \<Rightarrow> content1
             | Some auth_element \<Rightarrow> content1 @ [process_authority auth_element]);
          content3 =
            (case find_child div_element ''SOURCE'' of
               None \<Rightarrow> content2
             | Some source_element \<Rightarrow> content2 @ [process_source source_element]);
          content4 =
            (case find_child div_element ''EDNOTE'' of
               None \<Rightarrow> content3
             | Some ednote_element \<Rightarrow> content3 @ [process_editorial_note ednote_element]);
          content5 = content4 @ map process_paragraph (findall div_element ''P'');
          rendered = process_child_divs tg (snd heading) ch
      in (join [newline] (content5 @ fst rendered), snd rendered))"
| "process_child_divs parent_tag ctx [] = ([], ctx)"
| "process_child_divs parent_tag ctx (child_div # rest) =
     (if is_child_div parent_tag child_div
      then (let r = process_division ctx child_div;
                rs = process_child_divs parent_tag (snd r) rest
            in (fst r # fst rs, snd rs))
      else process_child_divs parent_tag ctx rest)"
  by pat_completeness auto
termination
  by (relation "measure (\<lambda>x. case x of Inl (ctx, e) \<Rightarrow> size e
                                     | Inr (t, ctx, es) \<Rightarrow> size_list size es)") auto

definition process_section :: "element \<Rightarrow> string" where
  "process_section section_element =
     join [newline]
       ((case find_child section_element ''HEAD'' of
           None \<Rightarrow> []
         | Some head_element \<Rightarrow>
             [[newline] @ ''###### '' @ format_section_number (extract_text_content head_element)
              @ [newline]])
        @ map process_paragraph (findall section_element ''P'')
        @ map process_citation (findall section_element ''CITA''))"

section \<open>Notions used to state the properties\<close>

text \<open>What a raw line is to the segmenter, and the number of headings that are directly
  followed (blank lines apart) by a line of body text.\<close>

datatype line_kind = Blank | Heading | Body

definition line_kind :: "string \<Rightarrow> line_kind" where
  "line_kind raw =
     (if py_strip raw = [] then Blank
      else if match_patterns patterns (py_strip raw) \<noteq> None then Heading
      else Body)"

fun headings_with_body :: "line_kind list \<Rightarrow> nat" where
  "headings_with_body (Heading # Body # ks) = Suc (headings_with_body (Body # ks))"
| "headings_with_body (k # ks) = headings_with_body ks"
| "headings_with_body [] = 0"




text \<open>\<^verbatim>\<open>re.search(...) is not None\<close>: the pattern matches somewhere in the subject.\<close>

fun search_from :: "flags \<Rightarrow> regex \<Rightarrow> char option \<Rightarrow> string \<Rightarrow> bool" where
  "search_from f r p [] = (mt f r (p, [], []) \<noteq> [])"
| "search_from f r p (c # cs) = (mt f r (p, c # cs, []) \<noteq> [] \<or> search_from f r (Some c) cs)"

definition re_search :: "flags \<Rightarrow> regex \<Rightarrow> string \<Rightarrow> bool" where
  "re_search f r s = search_from f r None s"

text \<open>The test of \<^verbatim>\<open>format_section_number\<close>: only digits once \<^verbatim>\<open>.\<close> and \<^verbatim>\<open>-\<close> are removed.\<close>

definition numeric :: "string \<Rightarrow> bool" where
  "numeric s = str_isdigit (filter (\<lambda>c. c \<noteq> CHR ''-'') (filter (\<lambda>c. c \<noteq> CHR ''.'') s))"

text \<open>
  The parts of a rendered division, as the specification names them: the heading line, the
  auxiliary blocks (authority, source, editorial note), the direct child paragraphs, and
  the child divisions into which the walker recurses. \<open>render_division\<close> is the text
  that \<^verbatim>\<open>process_division\<close> returns, started with the initial context.
\<close>

definition heading_block :: "element \<Rightarrow> string list" where
  "heading_block e =
     (case find_child e ''HEAD'' of
        None \<Rightarrow> []
      | Some h \<Rightarrow> [heading_line (upper (get_attr e ''TYPE'' [])) (extract_text_content h)])"

definition auxiliary_blocks :: "element \<Rightarrow> string list" where
  "auxiliary_blocks e =
     (case find_child e ''AUTH'' of None \<Rightarrow> [] | Some a \<Rightarrow> [process_authority a])
     @ (case find_child e ''SOURCE'' of None \<Rightarrow> [] | Some s \<Rightarrow> [process_source s])
     @ (case find_child e ''EDNOTE'' of None \<Rightarrow> [] | Some n \<Rightarrow> [process_editorial_note n])"

definition paragraph_blocks :: "element \<Rightarrow> string list" where
  "paragraph_blocks e = map process_paragraph (findall e ''P'')"

definition child_divisions :: "element \<Rightarrow> element list" where
  "child_divisions e = filter (is_child_div (tag e)) (children e)"

definition render_division :: "element \<Rightarrow> string" where
  "render_division e = fst (process_division initial_context e)"

text \<open>
  Devices for reasoning about the matcher. \<open>then_match f r F\<close> matches \<open>r\<close> and hands every
  resulting position to the continuation \<open>F\<close>; \<open>run_states P p s g\<close> lists the positions
  a greedy star over a character class \<open>P\<close> offers, longest run first; a continuation that
  fails on every character of \<open>P\<close> can only succeed after the whole run.
\<close>

fun run_states :: "(char \<Rightarrow> bool) \<Rightarrow> char option \<Rightarrow> string \<Rightarrow> (nat \<times> string) list \<Rightarrow> mstate list" where
  "run_states P p [] g = [(p, [], g)]"
| "run_states P p (c # cs) g =
     (if P c then run_states P (Some c) cs g @ [(p, c # cs, g)] else [(p, c # cs, g)])"

definition run_prev :: "(char \<Rightarrow> bool) \<Rightarrow> char option \<Rightarrow> string \<Rightarrow> char option" where
  "run_prev P p s = (if takeWhile P s = [] then p else Some (last (takeWhile P s)))"

definition then_match :: "flags \<Rightarrow> regex \<Rightarrow> (mstate \<Rightarrow> mstate list) \<Rightarrow> mstate \<Rightarrow> mstate list" where
  "then_match f r F = (\<lambda>st. concat (map F (mt f r st)))"

definition accept :: "mstate \<Rightarrow> mstate list" where
  "accept = (\<lambda>st. [st])"

definition rejects_cont :: "(char \<Rightarrow> bool) \<Rightarrow> (mstate \<Rightarrow> mstate list) \<Rightarrow> bool" where
  "rejects_cont P F = (\<forall>p c cs g. P c \<longrightarrow> F (p, c # cs, g) = [])"

definition close_group :: "nat \<Rightarrow> string \<Rightarrow> (mstate \<Rightarrow> mstate list) \<Rightarrow> mstate \<Rightarrow> mstate list" where
  "close_group n s F = (\<lambda>(p', s', g'). F (p', s', (n, take (length s - length s') s) # g'))"

text \<open>
  The postconditions of the tree pipeline's \<^verbatim>\<open>clean_text\<close>: no whitespace at either end,
  no two whitespace characters in a row, no whitespace right before one of the
  punctuation marks \<^verbatim>\<open>.,:;!?\<close>.
\<close>

definition is_punct :: "char \<Rightarrow> bool" where
  "is_punct c = (c \<in> set ''.,:;!?'')"

definition no_ws_pair :: "string \<Rightarrow> bool" where
  "no_ws_pair t = successively (\<lambda>a b. \<not> (py_isspace a \<and> py_isspace b)) t"

definition no_ws_before_punct :: "string \<Rightarrow> bool" where
  "no_ws_before_punct t = successively (\<lambda>a b. \<not> (py_isspace a \<and> is_punct b)) t"

definition no_outer_ws :: "string \<Rightarrow> bool" where
  "no_outer_ws t = (t = [] \<or> (\<not> py_isspace (hd t) \<and> \<not> py_isspace (last t)))"

text \<open>The second and third substitution of \<^verbatim>\<open>clean_text\<close>, from a position on, and the
  conditions under which their patterns match at a position.\<close>

abbreviation sbp_from :: "char option \<Rightarrow> string \<Rightarrow> string" where
  "sbp_from p s \<equiv> sub_from no_flags re_space_before_punct [RGrp (Suc 0)] p s"

abbreviation se_from :: "char option \<Rightarrow> string \<Rightarrow> string" where
  "se_from p s \<equiv> sub_from no_flags re_sentence_end [RGrp (Suc 0), RLit '' '', RGrp 2] p s"

definition ws_punct_at :: "char \<Rightarrow> string \<Rightarrow> bool" where
  "ws_punct_at c cs =
     (py_isspace c \<and> dropWhile py_isspace cs \<noteq> [] \<and> is_punct (hd (dropWhile py_isspace cs)))"

definition sentence_end_at :: "char \<Rightarrow> string \<Rightarrow> bool" where
  "sentence_end_at c cs =
     (in_cls no_flags (map CChr ''.!?'') c \<and> dropWhile py_isspace cs \<noteq> []
      \<and> in_cls no_flags [CRng CHR ''A'' CHR ''Z''] (hd (dropWhile py_isspace cs)))"

text \<open>
  The pattern table in the order in which the specification lists the patterns: chapter,
  section, table and figure, numeric x.y.z, numeric x.y, bare numeric x, single letter with
  a period. The patterns are those of the source.
\<close>

definition patterns_spec_order :: "(regex \<times> string) list" where
  "patterns_spec_order =
     [(pat_chapter, ''chapter''),
      (pat_section, ''section''),
      (pat_table, ''table''),
      (pat_figure, ''figure''),
      (pat_subsubsection, ''subsubsection''),
      (pat_subsection, ''subsection''),
      (pat_main_section, ''main_section''),
      (pat_item, ''item'')]"

text \<open>A proof device: what the first characters of a line decide. Each pattern can match
  only lines of one shape (1 chapter, 2 section, 3 main section, 4 subsection,
  5 subsubsection, 6 item, 7 table, 8 figure).\<close>

definition heading_shape :: "string \<Rightarrow> nat" where
  "heading_shape s =
     (case s of
        [] \<Rightarrow> 0
      | c # cs \<Rightarrow>
          if in_cls IGNORECASE [CDig] c then
            (case dropWhile (in_cls IGNORECASE [CDig]) cs of
               [] \<Rightarrow> 0
             | x # r \<Rightarrow>
                 if in_cls IGNORECASE [CSpc] x then 3
                 else if lit_eq IGNORECASE CHR ''.'' x then
                   (case dropWhile (in_cls IGNORECASE [CDig]) r of
                      [] \<Rightarrow> 0
                    | y # r' \<Rightarrow>
                        if in_cls IGNORECASE [CSpc] y then 4
                        else if lit_eq IGNORECASE CHR ''.'' y then 5
                        else 0)
                 else 0)
          else
            (case cs of
               [] \<Rightarrow> 0
             | d # r \<Rightarrow>
                 if lit_eq IGNORECASE CHR ''.'' d then 6
                 else if lit_eq IGNORECASE CHR ''C'' c then 1
                 else if lit_eq IGNORECASE CHR ''S'' c then 2
                 else if lit_eq IGNORECASE CHR ''T'' c then 7
                 else if lit_eq IGNORECASE CHR ''F'' c then 8
                 else 0))"

text \<open>
  For the tree pipeline's body text: an element none of whose descendants is an emphasis
  element (\<^verbatim>\<open>E\<close> or \<^verbatim>\<open>I\<close>), and all the text inside an element (its own text, and for
  each child the child's texts and tail).
\<close>

fun markup_free :: "element \<Rightarrow> bool" where
  "markup_free (Element tg at tx ta ch) =
     list_all (\<lambda>c. tag c \<noteq> ''E'' \<and> tag c \<noteq> ''I'' \<and> markup_free c) ch"

fun texts :: "element \<Rightarrow> string" where
  "texts (Element tg at tx ta ch) =
     opt_text tx @ concat (map (\<lambda>c. texts c @ opt_text (tail c)) ch)"

text \<open>
  Two syntactic checks on a pattern: whether every match of it consumes at least one
  character, and which groups every match of it captures.
\<close>

fun consumes :: "regex \<Rightarrow> bool" where
  "consumes (Lit a) = True"
| "consumes (Cls xs) = True"
| "consumes Dot = True"
| "consumes Bol = False"
| "consumes Eol = False"
| "consumes Wb = False"
| "consumes (Seq a b) = (consumes a \<or> consumes b)"
| "consumes (Alt a b) = (consumes a \<and> consumes b)"
| "consumes (Star r) = False"
| "consumes (LStar r) = False"
| "consumes (Grp n r) = consumes r"

fun binds :: "regex \<Rightarrow> nat set" where
  "binds (Grp n r) = insert n (binds r)"
| "binds (Seq a b) = binds a \<union> binds b"
| "binds (Alt a b) = binds a \<inter> binds b"
| "binds r = {}"

text \<open>
  What the page loop hands to the segmenter, and what the line loop makes of a list of
  lines: \<open>page_texts\<close> lists, in page order, the cleaned texts of the pages that have any;
  \<open>scan_lines\<close> is the loop of \<^verbatim>\<open>identify_sections\<close> on lines that are already split.
\<close>

definition page_texts :: "page list \<Rightarrow> string list" where
  "page_texts ps = filter (\<lambda>t. t \<noteq> []) (map (\<lambda>pg. clean_text (extract_text_from_page pg)) ps)"

definition scan_lines :: "string list \<Rightarrow> section_rec list" where
  "scan_lines ls =
     (case foldl process_line ([], None, []) ls of
        (sections, current_section, content_buffer) \<Rightarrow>
          save_section sections current_section content_buffer)"

text \<open>A page text whose first line is a heading, so that the page holds whole units only;
  and two views of the segmenter's loop state: the units when the input ends in the state,
  and the state with units put before its own.\<close>

definition starts_with_heading :: "string \<Rightarrow> bool" where
  "starts_with_heading t = (line_kind (hd (split_nl t)) = Heading)"

definition finish :: "scan_state \<Rightarrow> section_rec list" where
  "finish st = (case st of (sections, cur, buf) \<Rightarrow> save_section sections cur buf)"

definition shift :: "section_rec list \<Rightarrow> scan_state \<Rightarrow> scan_state" where
  "shift pre st = (case st of (sections, cur, buf) \<Rightarrow> (pre @ sections, cur, buf))"

text \<open>A further postcondition of the tree pipeline's \<^verbatim>\<open>clean_text\<close>: the only whitespace
  character that is left is the space, so the text is one line of words with single
  spaces between them.\<close>

definition only_space_ws :: "string \<Rightarrow> bool" where
  "only_space_ws t = (set (filter py_isspace t) \<subseteq> {CHR '' ''})"

text \<open>
  The second pass of \<^verbatim>\<open>format_content\<close>, described without patterns.

  A reference is located at the start of a text: \<open>number_at\<close> takes the longest run of
  decimal digits, which must not be empty; \<open>dotted_ref\<close> takes three such numbers with a
  full stop between them (x.y.z); \<open>phrase_ref k\<close> takes the literal phrase \<open>k\<close> and a number;
  \<open>keyword_at kws\<close> takes the longest run of word characters if, lower-cased, it is one of
  \<open>kws\<close>. Each gives the located text and the rest.

  \<open>mark_all loc m\<close> goes through a text from the left. Where the character before is not a
  word character, \<open>loc\<close> locates something and no word character follows it, the located
  text is written between two copies of the marker \<open>m\<close> and the scan goes on behind it;
  elsewhere one character is copied. What the locators above locate is a part of the text
  that is not empty (lemma \<open>located_text\<close> below), so the test that the rest is shorter
  always succeeds for them; it is there for the recursion to be well-founded.
\<close>

definition number_at :: "string \<Rightarrow> (string \<times> string) option" where
  "number_at s =
     (if takeWhile py_isdecimal s = [] then None
      else Some (takeWhile py_isdecimal s, dropWhile py_isdecimal s))"

definition dotted_ref :: "string \<Rightarrow> (string \<times> string) option" where
  "dotted_ref s =
     (case number_at s of
        None \<Rightarrow> None
      | Some (x, s1) \<Rightarrow>
          (case s1 of
             [] \<Rightarrow> None
           | c1 # t1 \<Rightarrow>
               if c1 \<noteq> CHR ''.'' then None
               else
                 (case number_at t1 of
                    None \<Rightarrow> None
                  | Some (y, s2) \<Rightarrow>
                      (case s2 of
                         [] \<Rightarrow> None
                       | c2 # t2 \<Rightarrow>
                           if c2 \<noteq> CHR ''.'' then None
                           else
                             (case number_at t2 of
                                None \<Rightarrow> None
                              | Some (z, s3) \<Rightarrow> Some (x @ ''.'' @ y @ ''.'' @ z, s3))))))"

definition phrase_ref :: "string \<Rightarrow> string \<Rightarrow> (string \<times> string) option" where
  "phrase_ref k s =
     (if take (length k) s = k
      then (case number_at (drop (length k) s) of
              None \<Rightarrow> None
            | Some (n, rest) \<Rightarrow> Some (k @ n, rest))
      else None)"

definition keyword_at :: "string list \<Rightarrow> string \<Rightarrow> (string \<times> string) option" where
  "keyword_at kws s =
     (if map py_lower (takeWhile py_isword s) \<in> set kws
      then Some (takeWhile py_isword s, dropWhile py_isword s)
      else None)"

function mark_all :: "(string \<Rightarrow> (string \<times> string) option) \<Rightarrow> string \<Rightarrow> char option \<Rightarrow> string \<Rightarrow> string" where
  "mark_all loc m p s =
     (case (if word_before p then None else loc s) of
        Some (w, rest) \<Rightarrow>
          if \<not> word_after rest \<and> length rest < length s
          then m @ w @ m @ mark_all loc m (Some (last w)) rest
          else (case s of [] \<Rightarrow> [] | c # cs \<Rightarrow> c # mark_all loc m (Some c) cs)
      | None \<Rightarrow> (case s of [] \<Rightarrow> [] | c # cs \<Rightarrow> c # mark_all loc m (Some c) cs))"
  by pat_completeness auto
termination
  by (relation "measure (\<lambda>(loc, m, p, s). length s)") auto

declare mark_all.simps [simp del]

text \<open>
  The two sets of terms, and the keyword pass by words: \<open>mark_words mk w\<close> cuts a text into
  its maximal runs of word characters and the characters between them (\<open>w\<close> is the run read so
  far), and applies \<open>mk\<close> to every run; \<open>emphasis_mark\<close> makes a run bold if, whatever its
  case, it is a mandatory term, italic if it is a permissive term, and leaves any other run
  as it is.
\<close>

definition mandatory_terms :: "string list" where
  "mandatory_terms = [''shall'', ''must'', ''required'', ''mandatory'']"

definition permissive_terms :: "string list" where
  "permissive_terms = [''may'', ''optional'', ''recommended'']"

definition mark_term :: "string list \<Rightarrow> string \<Rightarrow> string \<Rightarrow> string" where
  "mark_term kws m w = (if map py_lower w \<in> set kws then m @ w @ m else w)"

definition emphasis_mark :: "string \<Rightarrow> string" where
  "emphasis_mark w =
     (if map py_lower w \<in> set mandatory_terms then ''**'' @ w @ ''**''
      else if map py_lower w \<in> set permissive_terms then ''*'' @ w @ ''*''
      else w)"

fun mark_words :: "(string \<Rightarrow> string) \<Rightarrow> string \<Rightarrow> string \<Rightarrow> string" where
  "mark_words mk w [] = mk w"
| "mark_words mk w (c # cs) =
     (if py_isword c then mark_words mk (w @ [c]) cs else mk w @ c # mark_words mk [] cs)"

text \<open>Two more proof devices: what \<open>mark_words\<close> does behind a run of word characters, and
  a continuation that fails between two characters of a class.\<close>

definition after_word :: "(string \<Rightarrow> string) \<Rightarrow> string \<Rightarrow> string" where
  "after_word mk d = (case d of [] \<Rightarrow> [] | c # cs \<Rightarrow> c # mark_words mk [] cs)"

definition rejects_in_run :: "(char \<Rightarrow> bool) \<Rightarrow> (mstate \<Rightarrow> mstate list) \<Rightarrow> bool" where
  "rejects_in_run P F = (\<forall>d c cs g. P d \<longrightarrow> P c \<longrightarrow> F (Some d, c # cs, g) = [])"

section \<open>Properties of the text pipeline\<close>

subsection \<open>Pages\<close>

lemma add_page_error: "add_page acc PageError = acc"
  by (simp add: add_page_def extract_text_from_page_def)

lemma sub_from_Nil: "sub_from f r t p [] = []"
  by (subst sub_from.simps) (simp add: Let_def)

lemma re_sub_Nil: "re_sub f r t [] = []"
  by (simp add: re_sub_def sub_from_Nil)

lemma clean_text_Nil: "clean_text [] = []"
  by (simp add: clean_text_def re_sub_Nil py_strip_def)

lemma add_page_eq:
  "add_page acc pg = acc @ filter (\<lambda>t. t \<noteq> []) [clean_text (extract_text_from_page pg)]"
  by (simp add: add_page_def Let_def clean_text_Nil)

lemma foldl_add_page:
  "foldl add_page acc ps =
     acc @ filter (\<lambda>t. t \<noteq> []) (map (\<lambda>pg. clean_text (extract_text_from_page pg)) ps)"
  by (induction ps arbitrary: acc) (simp_all add: add_page_eq)

lemma split_nl_not_Nil: "split_nl s \<noteq> []"
  by (induction s) (auto split: list.splits)

lemma split_nl_append: "split_nl (a @ newline # b) = split_nl a @ split_nl b"
proof (induction a)
  case Nil
  show ?case by simp
next
  case (Cons c cs)
  obtain l ls where "split_nl cs = l # ls" using split_nl_not_Nil[of cs] by (cases "split_nl cs") auto
  with Cons show ?case by simp
qed

lemma process_line_blank: "process_line st [] = st"
  by (cases st) (simp add: process_line_def py_strip_def)

lemma split_nl_blank_line:
  "split_nl (x @ [newline, newline] @ t) = split_nl x @ [] # split_nl t"
  using split_nl_append[of x "newline # t"] split_nl_append[of "[]" t] by simp

lemma foldl_lines_join:
  "foldl process_line st (split_nl (join [newline, newline] xs))
     = foldl process_line st (concat (map split_nl xs))"
proof (induction xs arbitrary: st)
  case Nil
  show ?case by (simp add: process_line_blank)
next
  case (Cons x xs)
  show ?case
  proof (cases xs)
    case Nil
    then show ?thesis by simp
  next
    case (Cons y ys)
    have "join [newline, newline] (x # xs) = x @ [newline, newline] @ join [newline, newline] xs"
      by (simp add: Cons)
    then show ?thesis
      using Cons.IH by (simp only: split_nl_blank_line foldl_append foldl_Cons process_line_blank
        list.map concat.simps)
  qed
qed

lemma identify_sections_join:
  "identify_sections (join [newline, newline] xs) = scan_lines (concat (map split_nl xs))"
  by (simp add: identify_sections_def scan_lines_def foldl_lines_join)

lemma page_texts_append: "page_texts (ps1 @ PageError # ps2) = page_texts ps1 @ page_texts ps2"
  by (simp add: page_texts_def extract_text_from_page_def clean_text_Nil)

lemma full_text_page_texts: "full_text ps = join [newline, newline] (page_texts ps)"
  by (simp add: full_text_def foldl_add_page page_texts_def)

lemma save_section_shift: "save_section (pre @ S) cur buf = pre @ save_section S cur buf"
  by (simp add: save_section_def split: option.splits)

lemma process_line_shift: "process_line (shift pre st) l = shift pre (process_line st l)"
  by (cases st) (simp add: process_line_def shift_def Let_def save_section_shift split: option.splits)

lemma foldl_process_line_shift:
  "foldl process_line (shift pre st) ls = shift pre (foldl process_line st ls)"
  by (induction ls arbitrary: st) (simp_all add: process_line_shift)

lemma finish_shift: "finish (shift pre st) = pre @ finish st"
  by (cases st) (simp add: finish_def shift_def save_section_shift)

lemma scan_lines_finish: "scan_lines ls = finish (foldl process_line ([], None, []) ls)"
  by (simp add: scan_lines_def finish_def)

lemma identify_sections_scan: "identify_sections t = scan_lines (split_nl t)"
  by (simp add: identify_sections_def scan_lines_def)

lemma heading_line_restarts:
  assumes "line_kind l = Heading"
  shows "process_line st l = shift (finish st) (process_line ([], None, []) l)"
proof -
  from assms have ne: "py_strip l \<noteq> []" and m: "match_patterns patterns (py_strip l) \<noteq> None"
    by (auto simp add: line_kind_def split: if_splits)
  then obtain ty num tit where "match_patterns patterns (py_strip l) = Some (ty, num, tit)"
    by (cases "match_patterns patterns (py_strip l)") auto
  with ne show ?thesis
    by (cases st) (simp add: process_line_def shift_def finish_def Let_def save_section_def)
qed

lemma finish_page:
  assumes "starts_with_heading t"
  shows "finish (foldl process_line st (split_nl t)) = finish st @ identify_sections t"
proof -
  obtain h r where hr: "split_nl t = h # r"
    using split_nl_not_Nil[of t] by (cases "split_nl t") auto
  with assms have h: "line_kind h = Heading" by (simp add: starts_with_heading_def)
  have "foldl process_line st (h # r)
          = foldl process_line (shift (finish st) (process_line ([], None, []) h)) r"
    by (simp add: heading_line_restarts[OF h, of st])
  also have "\<dots> = shift (finish st) (foldl process_line ([], None, []) (h # r))"
    by (simp add: foldl_process_line_shift)
  finally show ?thesis
    by (simp add: hr finish_shift identify_sections_scan scan_lines_finish)
qed

lemma finish_pages:
  "list_all starts_with_heading xs \<Longrightarrow>
   finish (foldl process_line st (concat (map split_nl xs)))
     = finish st @ concat (map identify_sections xs)"
proof (induction xs arbitrary: st)
  case Nil
  show ?case by simp
next
  case (Cons x xs)
  then have x: "starts_with_heading x" and xs: "list_all starts_with_heading xs" by simp_all
  show ?case using Cons.IH[OF xs, of "foldl process_line st (split_nl x)"] finish_page[OF x, of st]
    by simp
qed

lemma scan_pages:
  "list_all starts_with_heading xs \<Longrightarrow>
   scan_lines (concat (map split_nl xs)) = concat (map identify_sections xs)"
  using finish_pages[of xs "([], None, [])"]
  by (simp add: scan_lines_finish finish_def save_section_def)

lemma units_by_page:
  "list_all starts_with_heading (page_texts ps1 @ page_texts ps2) \<longrightarrow>
        identify_sections (full_text (ps1 @ PageError # ps2))
          = concat (map identify_sections (page_texts ps1))
            @ concat (map identify_sections (page_texts ps2))
        \<and> parse_full_document (Some \<lparr>pages = ps1 @ PageError # ps2, bookmarks = b\<rparr>)
          = extract_table_of_contents \<lparr>pages = ps1 @ PageError # ps2, bookmarks = b\<rparr>
            @ format_for_vector_storage
                (concat (map identify_sections (page_texts ps1))
                 @ concat (map identify_sections (page_texts ps2)))"
proof
  assume h: "list_all starts_with_heading (page_texts ps1 @ page_texts ps2)"
  have b: "full_text (ps1 @ PageError # ps2) = join [newline, newline] (page_texts ps1 @ page_texts ps2)"
    by (simp only: full_text_page_texts page_texts_append)
  have c: "identify_sections (full_text (ps1 @ PageError # ps2))
       = scan_lines (concat (map split_nl (page_texts ps1 @ page_texts ps2)))"
    by (simp only: b identify_sections_join)
  have f: "identify_sections (full_text (ps1 @ PageError # ps2))
          = concat (map identify_sections (page_texts ps1))
            @ concat (map identify_sections (page_texts ps2))"
    unfolding c scan_pages[OF h] by simp
  have g: "parse_full_document (Some \<lparr>pages = ps1 @ PageError # ps2, bookmarks = b\<rparr>)
          = extract_table_of_contents \<lparr>pages = ps1 @ PageError # ps2, bookmarks = b\<rparr>
            @ format_for_vector_storage
                (concat (map identify_sections (page_texts ps1))
                 @ concat (map identify_sections (page_texts ps2)))"
    unfolding parse_full_document_def Let_def option.case pdf_doc.select_convs f ..
  from f g show "identify_sections (full_text (ps1 @ PageError # ps2))
          = concat (map identify_sections (page_texts ps1))
            @ concat (map identify_sections (page_texts ps2))
        \<and> parse_full_document (Some \<lparr>pages = ps1 @ PageError # ps2, bookmarks = b\<rparr>)
          = extract_table_of_contents \<lparr>pages = ps1 @ PageError # ps2, bookmarks = b\<rparr>
            @ format_for_vector_storage
                (concat (map identify_sections (page_texts ps1))
                 @ concat (map identify_sections (page_texts ps2)))" by blast
qed

text \<open>The specification's case of a middle page that fails, on a document of three pages
  without bookmarks.\<close>

lemma skip_example:
  "parse_full_document
     (Some \<lparr>pages = [PageText (''1 Scope'' @ [newline] @ ''This part applies to all vessels.'' @ [newline]),
                       PageError,
                       PageText (''2 Surveys'' @ [newline] @ ''Surveys are annual.'' @ [newline])],
            bookmarks = None\<rparr>)
   = join [newline]
       [''# ABS Rules for Survey After Construction - Part 7'' @ [newline],
        ''*American Bureau of Shipping Classification Rules*'' @ [newline],
        [newline] @ ''### 1 Scope'' @ [newline],
        ''This part applies to all vessels.'' @ [newline],
        [newline] @ ''### 2 Surveys'' @ [newline],
        ''Surveys are annual.'' @ [newline]]"
  by code_simp

lemma example_pages_clean:
  "clean_text (''1 Scope'' @ [newline] @ ''This part applies to all vessels.'' @ [newline])
     = ''1 Scope'' @ [newline] @ ''This part applies to all vessels.''
   \<and> clean_text (''2 Surveys'' @ [newline] @ ''Surveys are annual.'' @ [newline])
     = ''2 Surveys'' @ [newline] @ ''Surveys are annual.''"
  by code_simp

lemma example_pages_start:
  "starts_with_heading (''1 Scope'' @ [newline] @ ''This part applies to all vessels.'')
   \<and> starts_with_heading (''2 Surveys'' @ [newline] @ ''Surveys are annual.'')"
  by code_simp

lemma example_page_texts:
  "page_texts [PageText (''1 Scope'' @ [newline] @ ''This part applies to all vessels.'' @ [newline])]
     = [''1 Scope'' @ [newline] @ ''This part applies to all vessels.'']
   \<and> page_texts [PageText (''2 Surveys'' @ [newline] @ ''Surveys are annual.'' @ [newline])]
     = [''2 Surveys'' @ [newline] @ ''Surveys are annual.'']"
  using example_pages_clean by (simp add: page_texts_def extract_text_from_page_def)

lemma example_pages_start_with_heading:
  "list_all starts_with_heading
     (page_texts [PageText (''1 Scope'' @ [newline] @ ''This part applies to all vessels.'' @ [newline])]
      @ page_texts [PageText (''2 Surveys'' @ [newline] @ ''Surveys are annual.'' @ [newline])])"
  using example_pages_start
  unfolding example_page_texts[THEN conjunct1] example_page_texts[THEN conjunct2] by simp

text \<open>
  Claim C9. A page whose text extraction raises contributes the empty string and leaves
  the state of the page loop as it is, and the loop goes on with the pages after it. The
  pages' texts are then exactly the cleaned texts of the pages before the failed one
  followed by those of the pages after it, each in page order, joined with a blank line and
  with nothing in the place of the failed page. The units are what the segmenter's loop
  makes of the lines of these texts in that order, and the final document is the table of
  contents followed by the rendering of these units; it is the document of the page
  sequence without the failed page. When every page that has text starts with a heading,
  the units are those of the pages before the failed one followed by those of the pages
  after it, page by page, and the document renders them in that order. On the three-page
  document above, whose middle page fails, the final document holds the unit of the first
  page and then the unit of the third.
\<close>

theorem failed_page_is_skipped:
  "extract_text_from_page PageError = []
   \<and> add_page all_text PageError = all_text
   \<and> foldl add_page [] (ps1 @ PageError # ps2) = page_texts ps1 @ page_texts ps2
   \<and> full_text (ps1 @ PageError # ps2) = join [newline, newline] (page_texts ps1 @ page_texts ps2)
   \<and> full_text (ps1 @ PageError # ps2) = full_text (ps1 @ ps2)
   \<and> identify_sections (full_text (ps1 @ PageError # ps2))
       = scan_lines (concat (map split_nl (page_texts ps1 @ page_texts ps2)))
   \<and> parse_full_document (Some \<lparr>pages = ps1 @ PageError # ps2, bookmarks = b\<rparr>)
       = extract_table_of_contents \<lparr>pages = ps1 @ PageError # ps2, bookmarks = b\<rparr>
         @ format_for_vector_storage
             (scan_lines (concat (map split_nl (page_texts ps1 @ page_texts ps2))))
   \<and> parse_full_document (Some \<lparr>pages = ps1 @ PageError # ps2, bookmarks = b\<rparr>)
       = parse_full_document (Some \<lparr>pages = ps1 @ ps2, bookmarks = b\<rparr>)
   \<and> (list_all starts_with_heading (page_texts ps1 @ page_texts ps2) \<longrightarrow>
        identify_sections (full_text (ps1 @ PageError # ps2))
          = concat (map identify_sections (page_texts ps1))
            @ concat (map identify_sections (page_texts ps2))
        \<and> parse_full_document (Some \<lparr>pages = ps1 @ PageError # ps2, bookmarks = b\<rparr>)
          = extract_table_of_contents \<lparr>pages = ps1 @ PageError # ps2, bookmarks = b\<rparr>
            @ format_for_vector_storage
                (concat (map identify_sections (page_texts ps1))
                 @ concat (map identify_sections (page_texts ps2))))
   \<and> parse_full_document
       (Some \<lparr>pages = [PageText (''1 Scope'' @ [newline] @ ''This part applies to all vessels.'' @ [newline]),
                         PageError,
                         PageText (''2 Surveys'' @ [newline] @ ''Surveys are annual.'' @ [newline])],
              bookmarks = None\<rparr>)
     = join [newline]
         [''# ABS Rules for Survey After Construction - Part 7'' @ [newline],
          ''*American Bureau of Shipping Classification Rules*'' @ [newline],
          [newline] @ ''### 1 Scope'' @ [newline],
          ''This part applies to all vessels.'' @ [newline],
          [newline] @ ''### 2 Surveys'' @ [newline],
          ''Surveys are annual.'' @ [newline]]"
proof -
  have a: "foldl add_page [] (ps1 @ PageError # ps2) = page_texts ps1 @ page_texts ps2"
    using foldl_add_page[of "[]" "ps1 @ PageError # ps2"] page_texts_append[of ps1 ps2]
    by (simp add: page_texts_def)
  have b: "full_text (ps1 @ PageError # ps2) = join [newline, newline] (page_texts ps1 @ page_texts ps2)"
    by (simp only: full_text_page_texts page_texts_append)
  have b': "full_text (ps1 @ PageError # ps2) = full_text (ps1 @ ps2)"
    by (simp add: full_text_def add_page_error)
  have c: "identify_sections (full_text (ps1 @ PageError # ps2))
       = scan_lines (concat (map split_nl (page_texts ps1 @ page_texts ps2)))"
    by (simp only: b identify_sections_join)
  have d: "parse_full_document (Some \<lparr>pages = ps1 @ PageError # ps2, bookmarks = b\<rparr>)
       = extract_table_of_contents \<lparr>pages = ps1 @ PageError # ps2, bookmarks = b\<rparr>
         @ format_for_vector_storage
             (scan_lines (concat (map split_nl (page_texts ps1 @ page_texts ps2))))"
    unfolding parse_full_document_def Let_def option.case pdf_doc.select_convs c ..
  have d': "parse_full_document (Some \<lparr>pages = ps1 @ PageError # ps2, bookmarks = b\<rparr>)
       = parse_full_document (Some \<lparr>pages = ps1 @ ps2, bookmarks = b\<rparr>)"
    by (simp add: full_text_def add_page_error parse_full_document_def extract_table_of_contents_def)
  have e: "extract_text_from_page PageError = []" by (simp add: extract_text_from_page_def)
  from e add_page_error[of all_text] a b b' c d d' skip_example units_by_page[of ps1 ps2 b]
  show ?thesis by blast
qed

theorem failed_page_is_skipped_witness:
  "list_all starts_with_heading
     (page_texts [PageText (''1 Scope'' @ [newline] @ ''This part applies to all vessels.'' @ [newline])]
      @ page_texts [PageText (''2 Surveys'' @ [newline] @ ''Surveys are annual.'' @ [newline])])
   \<and> identify_sections
       (full_text ([PageText (''1 Scope'' @ [newline] @ ''This part applies to all vessels.'' @ [newline])]
                   @ PageError
                   # [PageText (''2 Surveys'' @ [newline] @ ''Surveys are annual.'' @ [newline])]))
     = concat (map identify_sections
         (page_texts [PageText (''1 Scope'' @ [newline] @ ''This part applies to all vessels.'' @ [newline])]))
       @ concat (map identify_sections
           (page_texts [PageText (''2 Surveys'' @ [newline] @ ''Surveys are annual.'' @ [newline])]))"
  using example_pages_start_with_heading
    failed_page_is_skipped[of "[]"
      "[PageText (''1 Scope'' @ [newline] @ ''This part applies to all vessels.'' @ [newline])]"
      "[PageText (''2 Surveys'' @ [newline] @ ''Surveys are annual.'' @ [newline])]" None]
  by blast

subsection \<open>The segmenter on the specification's example\<close>

lemma example_sections:
  "identify_sections (join [newline]
      [''1 Scope'', ''This part applies to all vessels.'', ''1.1 General'', ''See 2.3.4 for details.''])
   = [\<lparr>type = ''main_section'', number = ''1'', title = ''Scope'',
        content = ''This part applies to all vessels.'', full_header = ''1 Scope''\<rparr>,
      \<lparr>type = ''subsection'', number = ''1.1'', title = ''General'',
        content = ''See 2.3.4 for details.'', full_header = ''1.1 General''\<rparr>]"
  by code_simp

lemma example_content_1:
  "format_content ''This part applies to all vessels.'' = ''This part applies to all vessels.''"
  by code_simp

lemma example_content_2:
  "format_content ''See 2.3.4 for details.'' = ''See **2.3.4** for details.''"
  by code_simp

text \<open>
  Claim C2. On the four lines of the specification's example the segmenter, with
  \<open>format_content\<close> applied to each unit's content as the renderer does, gives exactly two
  units: main section 1 "Scope" with the first body line, and subsection 1.1 "General" whose
  cross-reference 2.3.4 is bold.
\<close>

theorem segmenter_example:
  "map (\<lambda>u. u\<lparr>content := format_content (content u)\<rparr>)
      (identify_sections (join [newline]
         [''1 Scope'', ''This part applies to all vessels.'', ''1.1 General'', ''See 2.3.4 for details.'']))
   = [\<lparr>type = ''main_section'', number = ''1'', title = ''Scope'',
        content = ''This part applies to all vessels.'', full_header = ''1 Scope''\<rparr>,
      \<lparr>type = ''subsection'', number = ''1.1'', title = ''General'',
        content = ''See **2.3.4** for details.'', full_header = ''1.1 General''\<rparr>]"
  by (simp only: example_sections example_content_1 example_content_2 list.map section_rec.simps)

text \<open>
  Claim C4, as the code has it. The cleanup rules are applied, in the order of the claim, to
  the text of each page on its own; the cleaned pages that are not empty are then joined
  with a blank line between them. Nothing is rejoined across a page boundary.
\<close>

theorem pages_are_cleaned_separately:
  "full_text ps =
     join [newline, newline]
       (filter (\<lambda>t. t \<noteq> []) (map (\<lambda>pg. clean_text (extract_text_from_page pg)) ps))
   \<and> clean_text t =
       py_strip
        (re_sub no_flags re_part7 [RLit [newline]]
          (re_sub no_flags re_abs [RLit [newline]]
            (re_sub no_flags re_page [RLit [newline]]
              (re_sub no_flags re_hyphen [RGrp 1, RGrp 2]
                (re_sub no_flags re_hspace [RLit '' '']
                  (re_sub no_flags re_blank_lines [RLit [newline, newline]] t))))))"
  by (simp add: full_text_def foldl_add_page clean_text_def)

text \<open>
  The claim C4 itself fails: a word hyphenated at the end of one page and continued on the
  next stays split in the normalized text, while the same rules applied to the
  concatenated page texts would rejoin it.
\<close>

theorem hyphen_across_pages_not_rejoined:
  "full_text [PageText (''an exam-'' @ [newline]), PageText (''ple text'' @ [newline])]
     = ''an exam-'' @ [newline, newline] @ ''ple text''
   \<and> clean_text ((''an exam-'' @ [newline]) @ (''ple text'' @ [newline])) = ''an example text''"
  by code_simp

subsection \<open>Which headings yield a unit\<close>







lemma hwb_Heading_Heading: "headings_with_body (Heading # Heading # ks) = headings_with_body (Heading # ks)"
  by simp

lemma hwb_Body: "headings_with_body (Body # ks) = headings_with_body ks"
  by simp





subsection \<open>The keyword-emphasis pass run again\<close>

lemma sub_from_no_match: "\<not> search_from f r p s \<Longrightarrow> sub_from f r t p s = s"
proof (induction s arbitrary: p)
  case Nil
  show ?case by (simp add: sub_from_Nil)
next
  case (Cons c cs)
  then have "mt f r (p, c # cs, []) = []" and "sub_from f r t (Some c) cs = cs" by simp_all
  then show ?case by (subst sub_from.simps) (simp add: Let_def)
qed

text \<open>
  Claim C7, as the code has it. On a text in which neither keyword pattern matches
  anywhere (no mandatory or permissive keyword stands as a whole word, emphasized or not),
  the keyword-emphasis pass returns the text unchanged.
\<close>

theorem emphasis_noop:
  "\<not> re_search IGNORECASE re_mandatory s \<Longrightarrow> \<not> re_search IGNORECASE re_permissive s
   \<Longrightarrow> format_emphasis s = s"
  by (simp add: format_emphasis_def re_sub_def re_search_def sub_from_no_match Let_def)

theorem emphasis_noop_witness:
  "\<not> re_search IGNORECASE re_mandatory ''Equipment is tested''
   \<and> \<not> re_search IGNORECASE re_permissive ''Equipment is tested''
   \<and> format_emphasis ''Equipment is tested'' = ''Equipment is tested''"
proof -
  have h1: "\<not> re_search IGNORECASE re_mandatory ''Equipment is tested''" by code_simp
  have h2: "\<not> re_search IGNORECASE re_permissive ''Equipment is tested''" by code_simp
  show ?thesis using h1 h2 emphasis_noop[OF h1 h2] by simp
qed

text \<open>
  The claim C7 itself fails: in the pass's own output every keyword is emphasized, yet the
  patterns still match the keyword between its markers (an asterisk is a word boundary),
  and the second run wraps it again.
\<close>

theorem emphasis_not_idempotent:
  "format_emphasis ''shall'' = ''**shall**''
   \<and> format_emphasis (format_emphasis ''shall'') = ''****shall****''
   \<and> format_content (format_content ''shall'') = ''****shall****''"
  by code_simp

section \<open>Properties of the tree pipeline\<close>

subsection \<open>Section headings\<close>

lemma section_sign_not_digit: "\<not> py_isdigit section_sign"
  by (simp add: py_isdigit_def section_sign_def ascii_digits_def)

lemma numeric_no_sign: "numeric s \<Longrightarrow> section_sign \<notin> set s"
proof
  assume n: "numeric s" and m: "section_sign \<in> set s"
  have "section_sign \<noteq> CHR ''-''" "section_sign \<noteq> CHR ''.''" by (simp_all add: section_sign_def)
  with m have "section_sign \<in> set (filter (\<lambda>c. c \<noteq> CHR ''-'') (filter (\<lambda>c. c \<noteq> CHR ''.'') s))"
    by simp
  with n have "py_isdigit section_sign" by (auto simp: numeric_def str_isdigit_def list_all_iff)
  with section_sign_not_digit show False by simp
qed

lemma heading_line_section:
  "heading_line ''SECTION'' t = [newline] @ ''###### '' @ format_section_number t @ [newline]"
  by (simp add: heading_line_def get_heading_level_def heading_levels_def Let_def numeral_eq_Suc)

lemma ex101: "process_division initial_context
       (Element ''DIV8'' [(''TYPE'', ''SECTION'')] None None [Element ''HEAD'' [] (Some ''101.10'') None []])
     = ([newline] @ ''###### '' @ [section_sign] @ '' 101.10'' @ [newline],
        [(''title'', []), (''chapter'', []), (''part'', []), (''subpart'', []), (''section'', ''101.10'')])"
  by code_simp

text \<open>
  Claim C6, as the code has it. The heading line of a SECTION division is six \<^verbatim>\<open>#\<close>, a
  space and the heading text passed through \<^verbatim>\<open>format_section_number\<close>. The formatter puts
  the section sign and a space in front of the text exactly when the text does not start
  with the sign and consists of digits, \<^verbatim>\<open>.\<close> and \<^verbatim>\<open>-\<close> only (with a digit); its output
  then holds the sign exactly once. Every other text is returned as it is. For the heading
  text 101.10 the rendered line is \<^verbatim>\<open>###### \<close> followed by the sign and \<^verbatim>\<open> 101.10\<close>.
\<close>

theorem section_heading:
  "heading_line ''SECTION'' t = [newline] @ ''###### '' @ format_section_number t @ [newline]
   \<and> format_section_number t
       = (if \<not> startswith t [section_sign] \<and> numeric t then [section_sign] @ '' '' @ t else t)
   \<and> (\<not> startswith t [section_sign] \<and> numeric t
        \<longrightarrow> count_list (format_section_number t) section_sign = 1)
   \<and> process_division initial_context
       (Element ''DIV8'' [(''TYPE'', ''SECTION'')] None None [Element ''HEAD'' [] (Some ''101.10'') None []])
     = ([newline] @ ''###### '' @ [section_sign] @ '' 101.10'' @ [newline],
        [(''title'', []), (''chapter'', []), (''part'', []), (''subpart'', []), (''section'', ''101.10'')])"
proof (intro conjI impI)
  show "heading_line ''SECTION'' t = [newline] @ ''###### '' @ format_section_number t @ [newline]"
    by (rule heading_line_section)
  show "format_section_number t
       = (if \<not> startswith t [section_sign] \<and> numeric t then [section_sign] @ '' '' @ t else t)"
    by (simp add: format_section_number_def numeric_def)
  show "count_list (format_section_number t) section_sign = 1"
    if "\<not> startswith t [section_sign] \<and> numeric t"
    using that numeric_no_sign[of t]
    by (simp add: format_section_number_def numeric_def section_sign_def count_list_0_iff)
  show "process_division initial_context
       (Element ''DIV8'' [(''TYPE'', ''SECTION'')] None None [Element ''HEAD'' [] (Some ''101.10'') None []])
     = ([newline] @ ''###### '' @ [section_sign] @ '' 101.10'' @ [newline],
        [(''title'', []), (''chapter'', []), (''part'', []), (''subpart'', []), (''section'', ''101.10'')])"
    by (rule ex101)
qed

theorem section_heading_witness:
  "\<not> startswith ''101.10'' [section_sign] \<and> numeric ''101.10''
   \<and> format_section_number ''101.10'' = [section_sign] @ '' 101.10''
   \<and> count_list (format_section_number ''101.10'') section_sign = 1"
proof -
  have h: "\<not> startswith ''101.10'' [section_sign] \<and> numeric ''101.10''" by code_simp
  from section_heading[of "''101.10''"]
  have a: "format_section_number ''101.10''
           = (if \<not> startswith ''101.10'' [section_sign] \<and> numeric ''101.10''
              then [section_sign] @ '' '' @ ''101.10'' else ''101.10'')"
    and b: "\<not> startswith ''101.10'' [section_sign] \<and> numeric ''101.10''
            \<longrightarrow> count_list (format_section_number ''101.10'') section_sign = 1"
    by blast+
  from a h have a': "format_section_number ''101.10'' = [section_sign] @ '' 101.10''"
    by (simp only: simp_thms if_True append.simps)
  from h a' b show ?thesis by blast
qed

text \<open>
  The claim C6 itself fails: a SECTION division whose heading is not a bare number keeps
  its heading text unchanged, and the rendered heading holds no section sign.
\<close>

theorem section_heading_without_sign:
  "fst (process_division initial_context
         (Element ''DIV8'' [(''TYPE'', ''SECTION'')] None None
            [Element ''HEAD'' [] (Some ''General provisions'') None []]))
     = [newline] @ ''###### General provisions'' @ [newline]
   \<and> count_list (format_section_number ''General provisions'') section_sign = 0"
  by code_simp

subsection \<open>The order of the blocks of a division\<close>

lemma process_division_unfold:
  "\<exists>ctx'. process_division ctx e =
     (join [newline] (heading_block e @ auxiliary_blocks e @ paragraph_blocks e
                      @ fst (process_child_divs (tag e) ctx' (children e))),
      snd (process_child_divs (tag e) ctx' (children e)))"
proof (cases e)
  case (Element tg at tx ta ch)
  show ?thesis
    unfolding Element
    by (rule exI[of _ "case find_child (Element tg at tx ta ch) ''HEAD'' of
                         None \<Rightarrow> ctx
                       | Some h \<Rightarrow> update_context ctx (upper (get_attr (Element tg at tx ta ch) ''TYPE'' []))
                                     (extract_text_content h)"])
       (simp add: Let_def heading_block_def auxiliary_blocks_def paragraph_blocks_def
             split: option.splits)
qed

lemma child_divs_render:
  assumes "\<And>c ctx. c \<in> set es \<Longrightarrow> fst (process_division ctx c) = render_division c"
  shows "fst (process_child_divs t ctx es) = map render_division (filter (is_child_div t) es)"
  using assms
proof (induction es arbitrary: ctx)
  case Nil
  show ?case by simp
next
  case (Cons c cs)
  then show ?case by (simp add: Let_def)
qed

lemma process_division_render: "fst (process_division ctx e) = render_division e"
proof (induction e arbitrary: ctx)
  case (Element tg at tx ta ch)
  have ch: "fst (process_child_divs t c ch) = map render_division (filter (is_child_div t) ch)" for t c
    by (rule child_divs_render) (simp add: Element.IH)
  obtain c1 where "process_division ctx (Element tg at tx ta ch) =
     (join [newline] (heading_block (Element tg at tx ta ch) @ auxiliary_blocks (Element tg at tx ta ch)
        @ paragraph_blocks (Element tg at tx ta ch) @ fst (process_child_divs tg c1 ch)),
      snd (process_child_divs tg c1 ch))"
    using process_division_unfold[of ctx "Element tg at tx ta ch"] by auto
  moreover obtain c2 where "process_division initial_context (Element tg at tx ta ch) =
     (join [newline] (heading_block (Element tg at tx ta ch) @ auxiliary_blocks (Element tg at tx ta ch)
        @ paragraph_blocks (Element tg at tx ta ch) @ fst (process_child_divs tg c2 ch)),
      snd (process_child_divs tg c2 ch))"
    using process_division_unfold[of initial_context "Element tg at tx ta ch"] by auto
  ultimately show ?case by (simp add: render_division_def[of "Element tg at tx ta ch"] ch)
qed

text \<open>
  Claim C8. The text rendered for an element does not depend on the context it is visited
  with, and it is the blocks of the element joined in this order: the heading line (if the
  element has a heading child), the authority, source and editorial-note blocks (each if
  present), the direct child paragraphs in document order, and the rendered child
  divisions in document order.
\<close>

theorem blocks_in_fixed_order:
  "fst (process_division ctx e) = render_division e
   \<and> render_division e =
       join [newline]
         (heading_block e @ auxiliary_blocks e @ paragraph_blocks e
          @ map render_division (child_divisions e))"
proof
  show "fst (process_division ctx e) = render_division e" by (rule process_division_render)
  obtain c where "process_division initial_context e =
     (join [newline] (heading_block e @ auxiliary_blocks e @ paragraph_blocks e
                      @ fst (process_child_divs (tag e) c (children e))),
      snd (process_child_divs (tag e) c (children e)))"
    using process_division_unfold[of initial_context e] by auto
  moreover have "fst (process_child_divs (tag e) c (children e)) = map render_division (child_divisions e)"
    unfolding child_divisions_def by (rule child_divs_render) (rule process_division_render)
  ultimately show "render_division e =
       join [newline]
         (heading_block e @ auxiliary_blocks e @ paragraph_blocks e
          @ map render_division (child_divisions e))"
    by (simp add: render_division_def[of e])
qed

subsection \<open>The matcher on a greedy run of a character class\<close>

lemma mt_Star_Cls: "mt f (Star (Cls xs)) (p, s, g) = run_states (in_cls f xs) p s g"
proof (induction s arbitrary: p)
  case Nil
  show ?case by (subst mt.simps(9)) simp
next
  case (Cons c cs)
  show ?case by (subst mt.simps(9)) (simp add: Cons.IH)
qed

lemma run_prev_Cons: "P c \<Longrightarrow> run_prev P p (c # cs) = run_prev P (Some c) cs"
  by (simp add: run_prev_def)

lemma run_prev_not: "\<not> P c \<Longrightarrow> run_prev P p (c # cs) = p"
  by (simp add: run_prev_def)

lemma run_states_hd:
  "run_states P p s g \<noteq> [] \<and> hd (run_states P p s g) = (run_prev P p s, dropWhile P s, g)"
  by (induction s arbitrary: p) (auto simp: run_prev_def)

lemma concat_map_run:
  assumes "rejects_cont P F"
  shows "concat (map F (run_states P p s g)) = F (run_prev P p s, dropWhile P s, g)"
proof (induction s arbitrary: p)
  case Nil
  show ?case by (simp add: run_prev_def)
next
  case (Cons c cs)
  show ?case
  proof (cases "P c")
    case True
    with assms have "F (p, c # cs, g) = []" by (simp add: rejects_cont_def)
    with True Cons.IH[of "Some c"] show ?thesis by (simp add: run_prev_Cons)
  next
    case False
    then show ?thesis by (simp add: run_prev_not)
  qed
qed

lemma mt_then: "mt f r st = then_match f r accept st"
  by (simp add: then_match_def accept_def)

lemma concat_map_concat:
  "concat (map F (concat (map G ys))) = concat (map (\<lambda>y. concat (map F (G y))) ys)"
  by (induction ys) simp_all

lemma then_Seq: "then_match f (Seq a b) F = then_match f a (then_match f b F)"
  by (rule ext) (simp add: then_match_def concat_map_concat)

lemma then_Alt: "then_match f (Alt a b) F st = then_match f a F st @ then_match f b F st"
  by (simp add: then_match_def)

lemma then_Lit:
  "then_match f (Lit a) F (p, s, g) =
     (case s of [] \<Rightarrow> [] | c # cs \<Rightarrow> if lit_eq f a c then F (Some c, cs, g) else [])"
  by (simp add: then_match_def split: list.splits)

lemma then_Cls:
  "then_match f (Cls xs) F (p, s, g) =
     (case s of [] \<Rightarrow> [] | c # cs \<Rightarrow> if in_cls f xs c then F (Some c, cs, g) else [])"
  by (simp add: then_match_def split: list.splits)

lemma then_Bol: "then_match f Bol F (None, s, g) = F (None, s, g)"
  by (simp add: then_match_def)

lemma then_Grp: "then_match f (Grp n r) F (p, s, g) = then_match f r (close_group n s F) (p, s, g)"
  by (simp add: then_match_def close_group_def comp_def case_prod_unfold)

lemma then_Star_Cls:
  "rejects_cont (in_cls f xs) F \<Longrightarrow>
   then_match f (Star (Cls xs)) F (p, s, g)
     = F (run_prev (in_cls f xs) p s, dropWhile (in_cls f xs) s, g)"
  by (simp add: then_match_def mt_Star_Cls concat_map_run)

lemma rejects_Cls:
  "(\<And>c. P c \<Longrightarrow> \<not> in_cls f xs c) \<Longrightarrow> rejects_cont P (then_match f (Cls xs) F)"
  by (simp add: rejects_cont_def then_Cls)

lemma rejects_Lit:
  "(\<And>c. P c \<Longrightarrow> \<not> lit_eq f a c) \<Longrightarrow> rejects_cont P (then_match f (Lit a) F)"
  by (simp add: rejects_cont_def then_Lit)

lemma rejects_close: "rejects_cont P F \<Longrightarrow> rejects_cont P (close_group n s F)"
  by (simp add: rejects_cont_def close_group_def)

lemma rejects_Grp:
  "(\<And>s. rejects_cont P (then_match f r (close_group n s F))) \<Longrightarrow> rejects_cont P (then_match f (Grp n r) F)"
  by (simp add: rejects_cont_def then_Grp)

subsection \<open>The first match of the three patterns of \<^verbatim>\<open>clean_text\<close>\<close>

lemma in_cls_no_flags: "in_cls no_flags xs c = list_ex (\<lambda>x. in_cset x c) xs"
  by (simp add: in_cls_def no_flags_def)

lemma in_cls_space: "in_cls no_flags [CSpc] = py_isspace"
  by (rule ext) (simp add: in_cls_no_flags)

lemma in_cls_punct: "in_cls no_flags punct = is_punct"
  by (rule ext) (auto simp: in_cls_no_flags punct_def is_punct_def)

lemma space_not_punct: "py_isspace c \<Longrightarrow> \<not> is_punct c"
  by (auto simp: py_isspace_def is_punct_def)

lemma space_not_upper: "py_isspace c \<Longrightarrow> \<not> in_cls no_flags [CRng CHR ''A'' CHR ''Z''] c"
  by (auto simp: py_isspace_def in_cls_no_flags in_range_def)

lemma upper_not_punct: "in_cls no_flags [CRng CHR ''A'' CHR ''Z''] c \<Longrightarrow> \<not> is_punct c"
  by (auto simp: is_punct_def in_cls_no_flags in_range_def)

lemma ender_is_punct: "in_cls no_flags (map CChr ''.!?'') c \<Longrightarrow> is_punct c"
  by (auto simp: is_punct_def in_cls_no_flags)

lemma dropWhile_Cons_not_all: "dropWhile P xs = y # ys \<Longrightarrow> \<forall>x\<in>set xs. P x \<Longrightarrow> False"
  by (metis dropWhile_eq_Nil_conv list.distinct(1))

lemma mt_ws_run:
  "mt no_flags re_ws_run (p, s, []) =
     (case s of [] \<Rightarrow> [] | c # cs \<Rightarrow> if py_isspace c then run_states py_isspace (Some c) cs [] else [])"
  by (simp add: re_ws_run_def mt_Star_Cls in_cls_space split: list.splits)

lemma mt_space_before_punct:
  "mt no_flags re_space_before_punct (p, s, []) =
     (case s of [] \<Rightarrow> []
      | c # cs \<Rightarrow>
          if py_isspace c
          then (case dropWhile py_isspace cs of [] \<Rightarrow> []
                | q # r \<Rightarrow> if is_punct q then [(Some q, r, [(1, [q])])] else [])
          else [])"
proof -
  have rej: "rejects_cont (in_cls no_flags [CSpc]) (then_match no_flags (Grp n (Cls punct)) F)" for F n
    by (intro rejects_Grp rejects_Cls) (simp add: in_cls_space in_cls_punct space_not_punct)
  show ?thesis
    apply (subst mt_then)
    unfolding re_space_before_punct_def then_Seq
    by (auto simp add: then_Cls then_Star_Cls[OF rej] then_Grp close_group_def accept_def
          in_cls_space in_cls_punct split: list.splits dest: dropWhile_Cons_not_all)
qed

lemma mt_sentence_end:
  "mt no_flags re_sentence_end (p, s, []) =
     (case s of [] \<Rightarrow> []
      | c # cs \<Rightarrow>
          if in_cls no_flags (map CChr ''.!?'') c
          then (case dropWhile py_isspace cs of [] \<Rightarrow> []
                | u # r \<Rightarrow> if in_cls no_flags [CRng CHR ''A'' CHR ''Z''] u
                           then [(Some u, r, [(2, [u]), (1, [c])])] else [])
          else [])"
proof -
  have rej: "rejects_cont (in_cls no_flags [CSpc])
               (then_match no_flags (Grp 2 (Cls [CRng CHR ''A'' CHR ''Z''])) F)" for F
    by (intro rejects_Grp rejects_Cls) (simp add: in_cls_space space_not_upper)
  show ?thesis
    apply (subst mt_then)
    unfolding re_sentence_end_def seqs.simps then_Seq
    by (auto simp add: then_Cls then_Star_Cls[OF rej] then_Grp close_group_def accept_def
          in_cls_space split: list.splits dest: dropWhile_Cons_not_all)
qed

subsection \<open>Whitespace runs replaced by one space\<close>

lemma successively_suffix: "successively P (xs @ ys) \<Longrightarrow> successively P ys"
  by (simp add: successively_append_iff)

lemma successively_dropWhile: "successively P xs \<Longrightarrow> successively P (dropWhile Q xs)"
  using successively_suffix[of P "takeWhile Q xs" "dropWhile Q xs"] by simp

lemma successively_tl: "successively P xs \<Longrightarrow> successively P (tl xs)"
  by (cases xs) (auto simp: successively_Cons)

lemma last_dropWhile: "dropWhile Q xs \<noteq> [] \<Longrightarrow> last (dropWhile Q xs) = last xs"
  using last_appendR[of "dropWhile Q xs" "takeWhile Q xs"] by simp

lemma length_tl_dropWhile: "length (tl (dropWhile Q xs)) < Suc (length xs)"
  using length_dropWhile_le[of Q xs] by (simp add: less_Suc_eq_le le_diff_conv)

lemma sub_ws_Cons:
  "sub_from no_flags re_ws_run t p (c # cs) =
     (if py_isspace c
      then expand t [] @ sub_from no_flags re_ws_run t (run_prev py_isspace (Some c) cs) (dropWhile py_isspace cs)
      else c # sub_from no_flags re_ws_run t (Some c) cs)"
  using length_dropWhile_le[of py_isspace cs]
  by (subst sub_from.simps) (simp add: mt_ws_run Let_def run_states_hd less_Suc_eq_le)

lemma ws_pair_1: "no_ws_pair (sub_from no_flags re_ws_run [RLit '' ''] p s)"
proof (induction s arbitrary: p rule: length_induct)
  case (1 s)
  show ?case
  proof (cases s)
    case Nil
    then show ?thesis by (simp add: sub_from_Nil no_ws_pair_def)
  next
    case (Cons c cs)
    show ?thesis
    proof (cases "py_isspace c")
      case False
      have "no_ws_pair (sub_from no_flags re_ws_run [RLit '' ''] (Some c) cs)"
        using 1 Cons by simp
      with False show ?thesis
        by (simp add: Cons sub_ws_Cons no_ws_pair_def successively_Cons)
    next
      case True
      let ?d = "dropWhile py_isspace cs"
      let ?p = "run_prev py_isspace (Some c) cs"
      have len: "length ?d < length s" using length_dropWhile_le[of py_isspace cs] Cons by simp
      have ih: "no_ws_pair (sub_from no_flags re_ws_run [RLit '' ''] ?p ?d)"
        using 1 len by simp
      have hd: "sub_from no_flags re_ws_run [RLit '' ''] ?p ?d = []
                \<or> \<not> py_isspace (hd (sub_from no_flags re_ws_run [RLit '' ''] ?p ?d))"
      proof (cases ?d)
        case Nil
        then have "sub_from no_flags re_ws_run [RLit '' ''] ?p ?d = []"
          by (simp only: sub_from_Nil)
        then show ?thesis by blast
      next
        case (Cons x xs)
        then have "\<not> py_isspace x" using hd_dropWhile[of py_isspace cs] by simp
        then show ?thesis by (simp add: Cons sub_ws_Cons)
      qed
      from True ih hd show ?thesis
        by (auto simp add: Cons sub_ws_Cons no_ws_pair_def successively_Cons)
    qed
  qed
qed

lemma hd_1: "\<not> py_isspace c \<Longrightarrow> hd (sub_from no_flags re_ws_run t p (c # cs)) = c"
  by (simp add: sub_ws_Cons)

lemma last_1:
  "s \<noteq> [] \<Longrightarrow> \<not> py_isspace (last s) \<Longrightarrow>
   sub_from no_flags re_ws_run [RLit '' ''] p s \<noteq> []
   \<and> last (sub_from no_flags re_ws_run [RLit '' ''] p s) = last s"
proof (induction s arbitrary: p rule: length_induct)
  case (1 s)
  then obtain c cs where Cons: "s = c # cs" by (cases s) auto
  show ?case
  proof (cases "cs = []")
    case True
    with 1 Cons show ?thesis by (simp add: sub_ws_Cons sub_from_Nil)
  next
    case False
    with 1 Cons have lcs: "\<not> py_isspace (last cs)" by simp
    show ?thesis
    proof (cases "py_isspace c")
      case c: False
      have "sub_from no_flags re_ws_run [RLit '' ''] (Some c) cs \<noteq> []
            \<and> last (sub_from no_flags re_ws_run [RLit '' ''] (Some c) cs) = last cs"
        using 1 Cons False lcs by simp
      with c False show ?thesis by (simp add: Cons sub_ws_Cons)
    next
      case c: True
      let ?d = "dropWhile py_isspace cs"
      let ?p = "run_prev py_isspace (Some c) cs"
      have dne: "?d \<noteq> []"
        using False lcs by (auto simp: dropWhile_eq_Nil_conv)
      then have ld: "last ?d = last cs" by (rule last_dropWhile)
      have len: "length ?d < length s" using length_dropWhile_le[of py_isspace cs] Cons by simp
      have "sub_from no_flags re_ws_run [RLit '' ''] ?p ?d \<noteq> []
            \<and> last (sub_from no_flags re_ws_run [RLit '' ''] ?p ?d) = last ?d"
        using 1 len dne ld lcs by simp
      with c False ld show ?thesis by (simp add: Cons sub_ws_Cons)
    qed
  qed
qed

subsection \<open>Whitespace before punctuation removed\<close>

lemma sbp_Cons:
  "sbp_from p (c # cs) =
     (if ws_punct_at c cs
      then hd (dropWhile py_isspace cs)
           # sbp_from (Some (hd (dropWhile py_isspace cs))) (tl (dropWhile py_isspace cs))
      else c # sbp_from (Some c) cs)"
  using length_tl_dropWhile[of py_isspace cs]
  by (subst sub_from.simps)
     (auto simp add: mt_space_before_punct Let_def grp_of_def ws_punct_at_def split: list.splits
           dest: dropWhile_Cons_not_all)

lemma sbp_nomatch_hd:
  assumes "py_isspace c" "\<not> ws_punct_at c cs"
  shows "sbp_from p cs = [] \<or> \<not> is_punct (hd (sbp_from p cs))"
proof (cases cs)
  case Nil
  then show ?thesis by (simp add: sub_from_Nil)
next
  case (Cons x xs)
  show ?thesis
  proof (cases "py_isspace x")
    case True
    with assms Cons have "\<not> ws_punct_at x xs" by (simp add: ws_punct_at_def)
    with True show ?thesis by (simp add: Cons sbp_Cons space_not_punct)
  next
    case False
    with assms Cons have "\<not> is_punct x" by (simp add: ws_punct_at_def)
    moreover from False have "\<not> ws_punct_at x xs" by (simp add: ws_punct_at_def)
    ultimately show ?thesis by (simp add: Cons sbp_Cons)
  qed
qed

lemma sbp_hd:
  "sbp_from p (c # cs) \<noteq> []
   \<and> (hd (sbp_from p (c # cs)) = c \<or> is_punct (hd (sbp_from p (c # cs))))"
  by (simp add: sbp_Cons ws_punct_at_def)

lemma ws_punct_2: "no_ws_before_punct (sbp_from p s)"
proof (induction s arbitrary: p rule: length_induct)
  case (1 s)
  show ?case
  proof (cases s)
    case Nil
    then show ?thesis by (simp add: sub_from_Nil no_ws_before_punct_def)
  next
    case (Cons c cs)
    show ?thesis
    proof (cases "ws_punct_at c cs")
      case True
      let ?d = "dropWhile py_isspace cs"
      have "length (tl ?d) < length s" using length_tl_dropWhile[of py_isspace cs] Cons by simp
      then have "no_ws_before_punct (sbp_from (Some (hd ?d)) (tl ?d))" using 1 by simp
      moreover from True have "\<not> py_isspace (hd ?d)"
        using space_not_punct by (auto simp: ws_punct_at_def)
      ultimately show ?thesis using True
        by (simp add: Cons sbp_Cons no_ws_before_punct_def successively_Cons)
    next
      case False
      have ih: "no_ws_before_punct (sbp_from (Some c) cs)" using 1 Cons by simp
      have "py_isspace c \<Longrightarrow> sbp_from (Some c) cs = [] \<or> \<not> is_punct (hd (sbp_from (Some c) cs))"
        using sbp_nomatch_hd[OF _ False] by simp
      with ih False show ?thesis
        by (auto simp add: Cons sbp_Cons no_ws_before_punct_def successively_Cons)
    qed
  qed
qed

lemma ws_pair_2: "no_ws_pair s \<Longrightarrow> no_ws_pair (sbp_from p s)"
proof (induction s arbitrary: p rule: length_induct)
  case (1 s)
  show ?case
  proof (cases s)
    case Nil
    then show ?thesis by (simp add: sub_from_Nil no_ws_pair_def)
  next
    case (Cons c cs)
    from 1(2) Cons have cs: "no_ws_pair cs" and first: "cs = [] \<or> \<not> (py_isspace c \<and> py_isspace (hd cs))"
      by (auto simp: no_ws_pair_def successively_Cons)
    show ?thesis
    proof (cases "ws_punct_at c cs")
      case True
      let ?d = "dropWhile py_isspace cs"
      have "length (tl ?d) < length s" using length_tl_dropWhile[of py_isspace cs] Cons by simp
      moreover have "no_ws_pair (tl ?d)"
        using cs unfolding no_ws_pair_def by (intro successively_tl successively_dropWhile)
      ultimately have "no_ws_pair (sbp_from (Some (hd ?d)) (tl ?d))" using 1 by simp
      moreover from True have "\<not> py_isspace (hd ?d)"
        using space_not_punct by (auto simp: ws_punct_at_def)
      ultimately show ?thesis using True
        by (simp add: Cons sbp_Cons no_ws_pair_def successively_Cons)
    next
      case False
      have ih: "no_ws_pair (sbp_from (Some c) cs)" using 1 Cons cs by simp
      have "sbp_from (Some c) cs = [] \<or> \<not> (py_isspace c \<and> py_isspace (hd (sbp_from (Some c) cs)))"
      proof (cases cs)
        case Nil
        then show ?thesis by (simp add: sub_from_Nil)
      next
        case inner: (Cons x xs)
        from sbp_hd[of "Some c" x xs] first inner space_not_punct show ?thesis by auto
      qed
      with ih False show ?thesis
        by (auto simp add: Cons sbp_Cons no_ws_pair_def successively_Cons)
    qed
  qed
qed

lemma hd_2: "\<not> py_isspace c \<Longrightarrow> hd (sbp_from p (c # cs)) = c"
  by (simp add: sbp_Cons ws_punct_at_def)

lemma last_2: "s \<noteq> [] \<Longrightarrow> sbp_from p s \<noteq> [] \<and> last (sbp_from p s) = last s"
proof (induction s arbitrary: p rule: length_induct)
  case (1 s)
  then obtain c cs where Cons: "s = c # cs" by (cases s) auto
  show ?case
  proof (cases "ws_punct_at c cs")
    case True
    let ?d = "dropWhile py_isspace cs"
    from True have dne: "?d \<noteq> []" by (simp add: ws_punct_at_def)
    then have csne: "cs \<noteq> []" by auto
    have ld: "last ?d = last cs" using dne by (rule last_dropWhile)
    have len: "length (tl ?d) < length s" using length_tl_dropWhile[of py_isspace cs] Cons by simp
    show ?thesis
    proof (cases "tl ?d = []")
      case t: True
      with dne have "last ?d = hd ?d" by (cases ?d) auto
      with t True ld csne show ?thesis by (simp add: Cons sbp_Cons sub_from_Nil)
    next
      case t: False
      with 1 len have "sbp_from (Some (hd ?d)) (tl ?d) \<noteq> []
           \<and> last (sbp_from (Some (hd ?d)) (tl ?d)) = last (tl ?d)" by simp
      moreover from t dne have "last (tl ?d) = last ?d" by (cases ?d) auto
      ultimately show ?thesis using True ld csne by (simp add: Cons sbp_Cons)
    qed
  next
    case False
    show ?thesis
    proof (cases "cs = []")
      case True
      with False show ?thesis by (simp add: Cons sbp_Cons sub_from_Nil)
    next
      case ne: False
      with 1 Cons have "sbp_from (Some c) cs \<noteq> [] \<and> last (sbp_from (Some c) cs) = last cs" by simp
      with False ne show ?thesis by (simp add: Cons sbp_Cons)
    qed
  qed
qed

subsection \<open>A space after the end of a sentence\<close>

lemma ender_not_space: "in_cls no_flags (map CChr ''.!?'') c \<Longrightarrow> \<not> py_isspace c"
  using ender_is_punct space_not_punct by blast

lemma se_Cons:
  "se_from p (c # cs) =
     (if sentence_end_at c cs
      then c # CHR '' '' # hd (dropWhile py_isspace cs)
           # se_from (Some (hd (dropWhile py_isspace cs))) (tl (dropWhile py_isspace cs))
      else c # se_from (Some c) cs)"
  using length_tl_dropWhile[of py_isspace cs]
  by (subst sub_from.simps)
     (auto simp add: mt_sentence_end Let_def grp_of_def sentence_end_at_def split: list.splits
           dest: dropWhile_Cons_not_all)

lemma se_hd: "se_from p (c # cs) \<noteq> [] \<and> hd (se_from p (c # cs)) = c"
  by (simp add: se_Cons)

lemma se_hd': "s \<noteq> [] \<Longrightarrow> se_from p s \<noteq> [] \<and> hd (se_from p s) = hd s"
  using se_hd by (cases s) auto

lemma se_match_facts:
  assumes "sentence_end_at c cs"
  shows "\<not> py_isspace c" "\<not> py_isspace (hd (dropWhile py_isspace cs))"
        "\<not> is_punct (hd (dropWhile py_isspace cs))"
  using assms ender_not_space space_not_upper upper_not_punct
  by (auto simp: sentence_end_at_def)

lemma ws_pair_3: "no_ws_pair s \<Longrightarrow> no_ws_pair (se_from p s)"
proof (induction s arbitrary: p rule: length_induct)
  case (1 s)
  show ?case
  proof (cases s)
    case Nil
    then show ?thesis by (simp add: sub_from_Nil no_ws_pair_def)
  next
    case (Cons c cs)
    from 1(2) Cons have cs: "no_ws_pair cs" and first: "cs = [] \<or> \<not> (py_isspace c \<and> py_isspace (hd cs))"
      by (auto simp: no_ws_pair_def successively_Cons)
    show ?thesis
    proof (cases "sentence_end_at c cs")
      case True
      let ?d = "dropWhile py_isspace cs"
      have "length (tl ?d) < length s" using length_tl_dropWhile[of py_isspace cs] Cons by simp
      moreover have "no_ws_pair (tl ?d)"
        using cs unfolding no_ws_pair_def by (intro successively_tl successively_dropWhile)
      ultimately have "no_ws_pair (se_from (Some (hd ?d)) (tl ?d))" using 1 by simp
      with True se_match_facts[OF True] show ?thesis
        by (simp add: Cons se_Cons no_ws_pair_def successively_Cons)
    next
      case False
      have ih: "no_ws_pair (se_from (Some c) cs)" using 1 Cons cs by simp
      have "cs \<noteq> [] \<Longrightarrow> hd (se_from (Some c) cs) = hd cs" using se_hd' by simp
      with ih False first show ?thesis
        by (cases "cs = []") (auto simp add: Cons se_Cons sub_from_Nil no_ws_pair_def successively_Cons)
    qed
  qed
qed

lemma ws_punct_3: "no_ws_before_punct s \<Longrightarrow> no_ws_before_punct (se_from p s)"
proof (induction s arbitrary: p rule: length_induct)
  case (1 s)
  show ?case
  proof (cases s)
    case Nil
    then show ?thesis by (simp add: sub_from_Nil no_ws_before_punct_def)
  next
    case (Cons c cs)
    from 1(2) Cons have cs: "no_ws_before_punct cs"
      and first: "cs = [] \<or> \<not> (py_isspace c \<and> is_punct (hd cs))"
      by (auto simp: no_ws_before_punct_def successively_Cons)
    show ?thesis
    proof (cases "sentence_end_at c cs")
      case True
      let ?d = "dropWhile py_isspace cs"
      have "length (tl ?d) < length s" using length_tl_dropWhile[of py_isspace cs] Cons by simp
      moreover have "no_ws_before_punct (tl ?d)"
        using cs unfolding no_ws_before_punct_def by (intro successively_tl successively_dropWhile)
      ultimately have "no_ws_before_punct (se_from (Some (hd ?d)) (tl ?d))" using 1 by simp
      with True se_match_facts[OF True] show ?thesis
        by (simp add: Cons se_Cons no_ws_before_punct_def successively_Cons)
    next
      case False
      have ih: "no_ws_before_punct (se_from (Some c) cs)" using 1 Cons cs by simp
      have "cs \<noteq> [] \<Longrightarrow> hd (se_from (Some c) cs) = hd cs" using se_hd' by simp
      with ih False first show ?thesis
        by (cases "cs = []")
           (auto simp add: Cons se_Cons sub_from_Nil no_ws_before_punct_def successively_Cons)
    qed
  qed
qed

lemma last_3: "s \<noteq> [] \<Longrightarrow> se_from p s \<noteq> [] \<and> last (se_from p s) = last s"
proof (induction s arbitrary: p rule: length_induct)
  case (1 s)
  then obtain c cs where Cons: "s = c # cs" by (cases s) auto
  show ?case
  proof (cases "sentence_end_at c cs")
    case True
    let ?d = "dropWhile py_isspace cs"
    from True have dne: "?d \<noteq> []" by (simp add: sentence_end_at_def)
    then have csne: "cs \<noteq> []" by auto
    have ld: "last ?d = last cs" using dne by (rule last_dropWhile)
    have len: "length (tl ?d) < length s" using length_tl_dropWhile[of py_isspace cs] Cons by simp
    show ?thesis
    proof (cases "tl ?d = []")
      case t: True
      with dne have "last ?d = hd ?d" by (cases ?d) auto
      with t True ld csne show ?thesis by (simp add: Cons se_Cons sub_from_Nil)
    next
      case t: False
      with 1 len have "se_from (Some (hd ?d)) (tl ?d) \<noteq> []
           \<and> last (se_from (Some (hd ?d)) (tl ?d)) = last (tl ?d)" by simp
      moreover from t dne have "last (tl ?d) = last ?d" by (cases ?d) auto
      ultimately show ?thesis using True ld csne by (simp add: Cons se_Cons)
    qed
  next
    case False
    show ?thesis
    proof (cases "cs = []")
      case True
      with False show ?thesis by (simp add: Cons se_Cons sub_from_Nil)
    next
      case ne: False
      with 1 Cons have "se_from (Some c) cs \<noteq> [] \<and> last (se_from (Some c) cs) = last cs" by simp
      with False ne show ?thesis by (simp add: Cons se_Cons)
    qed
  qed
qed

lemma py_strip_outer: "no_outer_ws (py_strip s)"
proof (cases "py_strip s = []")
  case True
  then show ?thesis by (simp add: no_outer_ws_def)
next
  case False
  let ?y = "dropWhile py_isspace (rev s)"
  from False have h: "\<not> py_isspace (hd (py_strip s))"
    unfolding py_strip_def by (rule hd_dropWhile)
  from False have yne: "?y \<noteq> []"
    unfolding py_strip_def by (metis dropWhile.simps(1) rev.simps(1))
  then have "\<not> py_isspace (hd ?y)" by (rule hd_dropWhile)
  moreover have "last (py_strip s) = last (rev ?y)"
    using False unfolding py_strip_def by (rule last_dropWhile)
  moreover have "last (rev ?y) = hd ?y" using yne by (simp add: last_rev)
  ultimately show ?thesis using h False by (simp add: no_outer_ws_def)
qed

lemma ecfr_clean_text_normalized:
  "no_outer_ws (ecfr_clean_text t) \<and> no_ws_pair (ecfr_clean_text t)
   \<and> no_ws_before_punct (ecfr_clean_text t)"
proof (cases "py_strip t = []")
  case True
  then show ?thesis
    by (simp add: ecfr_clean_text_def re_sub_def sub_from_Nil Let_def
          no_outer_ws_def no_ws_pair_def no_ws_before_punct_def)
next
  case False
  let ?s0 = "py_strip t"
  let ?s1 = "sub_from no_flags re_ws_run [RLit '' ''] None ?s0"
  let ?s2 = "sbp_from None ?s1"
  let ?s3 = "se_from None ?s2"
  from False have tne: "t \<noteq> []" by (auto simp: py_strip_def)
  then have out: "ecfr_clean_text t = ?s3"
    by (simp add: ecfr_clean_text_def re_sub_def Let_def)
  from py_strip_outer[of t] False have h0: "\<not> py_isspace (hd ?s0)" and l0: "\<not> py_isspace (last ?s0)"
    by (simp_all add: no_outer_ws_def)
  obtain c cs where s0: "?s0 = c # cs" using False by (cases ?s0) auto
  have h1: "hd ?s1 = hd ?s0" using hd_1[of c _ None cs] h0 by (simp add: s0)
  have l1: "?s1 \<noteq> [] \<and> last ?s1 = last ?s0" using last_1[OF False l0] by simp
  then obtain c1 cs1 where s1: "?s1 = c1 # cs1" by (cases ?s1) auto
  have p1: "no_ws_pair ?s1" by (rule ws_pair_1)
  have h2: "hd ?s2 = hd ?s1" using hd_2[of c1 None cs1] h1 h0 by (simp add: s1)
  have l2: "?s2 \<noteq> [] \<and> last ?s2 = last ?s1" using last_2[of ?s1 None] l1 by simp
  have p2: "no_ws_pair ?s2" using p1 by (rule ws_pair_2)
  have q2: "no_ws_before_punct ?s2" by (rule ws_punct_2)
  have h3: "hd ?s3 = hd ?s2" using se_hd'[of ?s2 None] l2 by simp
  have l3: "?s3 \<noteq> [] \<and> last ?s3 = last ?s2" using last_3[of ?s2 None] l2 by simp
  have p3: "no_ws_pair ?s3" using p2 by (rule ws_pair_3)
  have q3: "no_ws_before_punct ?s3" using q2 by (rule ws_punct_3)
  from h0 l0 h1 l1 h2 l2 h3 l3 have "no_outer_ws ?s3" by (simp add: no_outer_ws_def)
  with p3 q3 show ?thesis by (simp only: out simp_thms)
qed

subsection \<open>The characters of the cleaned text\<close>

lemma set_py_strip: "set (py_strip s) \<subseteq> set s"
proof
  fix x assume "x \<in> set (py_strip s)"
  then have "x \<in> set (rev (dropWhile py_isspace (rev s)))"
    unfolding py_strip_def by (rule set_dropWhileD)
  then have "x \<in> set (dropWhile py_isspace (rev s))" by simp
  then have "x \<in> set (rev s)" by (rule set_dropWhileD)
  then show "x \<in> set s" by simp
qed

lemma set_tl_dropWhile: "set (tl (dropWhile P cs)) \<subseteq> set cs"
  by (metis list.set_sel(2) set_dropWhileD subsetI tl_Nil)

lemma set_ws: "set (sub_from no_flags re_ws_run [RLit '' ''] p s) \<subseteq> set s \<union> {CHR '' ''}"
proof (induction s arbitrary: p rule: length_induct)
  case (1 s)
  show ?case
  proof (cases s)
    case Nil
    then show ?thesis by (simp add: sub_from_Nil)
  next
    case (Cons c cs)
    let ?d = "dropWhile py_isspace cs"
    have "length ?d < length s" using length_dropWhile_le[of py_isspace cs] Cons by simp
    with 1 have a: "set (sub_from no_flags re_ws_run [RLit '' ''] (run_prev py_isspace (Some c) cs) ?d)
        \<subseteq> set ?d \<union> {CHR '' ''}" by blast
    have b: "set (sub_from no_flags re_ws_run [RLit '' ''] (Some c) cs) \<subseteq> set cs \<union> {CHR '' ''}"
      using 1 Cons by simp
    have "set ?d \<subseteq> set cs" using set_dropWhileD by fastforce
    with a b show ?thesis by (auto simp add: Cons sub_ws_Cons)
  qed
qed

lemma set_sbp: "set (sbp_from p s) \<subseteq> set s"
proof (induction s arbitrary: p rule: length_induct)
  case (1 s)
  show ?case
  proof (cases s)
    case Nil
    then show ?thesis by (simp add: sub_from_Nil)
  next
    case (Cons c cs)
    let ?d = "dropWhile py_isspace cs"
    have "length (tl ?d) < length s" using length_tl_dropWhile[of py_isspace cs] Cons by simp
    with 1 have a: "set (sbp_from (Some (hd ?d)) (tl ?d)) \<subseteq> set (tl ?d)" by blast
    have b: "set (sbp_from (Some c) cs) \<subseteq> set cs" using 1 Cons by simp
    have d: "set (tl ?d) \<subseteq> set cs" by (rule set_tl_dropWhile)
    have "?d \<noteq> [] \<Longrightarrow> hd ?d \<in> set cs" using hd_in_set[of ?d] set_dropWhileD by fastforce
    with a b d show ?thesis by (auto simp add: Cons sbp_Cons ws_punct_at_def)
  qed
qed

lemma set_se: "set (se_from p s) \<subseteq> set s \<union> {CHR '' ''}"
proof (induction s arbitrary: p rule: length_induct)
  case (1 s)
  show ?case
  proof (cases s)
    case Nil
    then show ?thesis by (simp add: sub_from_Nil)
  next
    case (Cons c cs)
    let ?d = "dropWhile py_isspace cs"
    have "length (tl ?d) < length s" using length_tl_dropWhile[of py_isspace cs] Cons by simp
    with 1 have a: "set (se_from (Some (hd ?d)) (tl ?d)) \<subseteq> set (tl ?d) \<union> {CHR '' ''}" by blast
    have b: "set (se_from (Some c) cs) \<subseteq> set cs \<union> {CHR '' ''}" using 1 Cons by simp
    have d: "set (tl ?d) \<subseteq> set cs" by (rule set_tl_dropWhile)
    have "?d \<noteq> [] \<Longrightarrow> hd ?d \<in> set cs" using hd_in_set[of ?d] set_dropWhileD by fastforce
    with a b d show ?thesis by (auto simp add: Cons se_Cons sentence_end_at_def)
  qed
qed

lemma set_ecfr_clean_text: "set (ecfr_clean_text t) \<subseteq> set t \<union> {CHR '' ''}"
proof (cases "t = []")
  case True
  then show ?thesis by (simp add: ecfr_clean_text_def)
next
  case False
  let ?s1 = "sub_from no_flags re_ws_run [RLit '' ''] None (py_strip t)"
  have "set ?s1 \<subseteq> set t \<union> {CHR '' ''}" using set_ws[of None "py_strip t"] set_py_strip[of t] by blast
  moreover have "set (sbp_from None ?s1) \<subseteq> set ?s1" by (rule set_sbp)
  moreover have "set (se_from None (sbp_from None ?s1)) \<subseteq> set (sbp_from None ?s1) \<union> {CHR '' ''}"
    by (rule set_se)
  ultimately have "set (se_from None (sbp_from None ?s1)) \<subseteq> set t \<union> {CHR '' ''}" by blast
  with False show ?thesis by (simp add: ecfr_clean_text_def re_sub_def Let_def)
qed

lemma ws_only_1: "set (filter py_isspace (sub_from no_flags re_ws_run [RLit '' ''] p s)) \<subseteq> {CHR '' ''}"
proof (induction s arbitrary: p rule: length_induct)
  case (1 s)
  show ?case
  proof (cases s)
    case Nil
    then show ?thesis by (simp add: sub_from_Nil)
  next
    case (Cons c cs)
    let ?d = "dropWhile py_isspace cs"
    have "length ?d < length s" using length_dropWhile_le[of py_isspace cs] Cons by simp
    with 1 have a: "set (filter py_isspace (sub_from no_flags re_ws_run [RLit '' '']
        (run_prev py_isspace (Some c) cs) ?d)) \<subseteq> {CHR '' ''}" by blast
    have b: "set (filter py_isspace (sub_from no_flags re_ws_run [RLit '' ''] (Some c) cs)) \<subseteq> {CHR '' ''}"
      using 1 Cons by simp
    from a b show ?thesis by (auto simp add: Cons sub_ws_Cons)
  qed
qed

lemma ecfr_clean_text_only_space: "only_space_ws (ecfr_clean_text t)"
proof (cases "t = []")
  case True
  then show ?thesis by (simp add: ecfr_clean_text_def only_space_ws_def)
next
  case False
  let ?s1 = "sub_from no_flags re_ws_run [RLit '' ''] None (py_strip t)"
  have a: "set (filter py_isspace ?s1) \<subseteq> {CHR '' ''}" by (rule ws_only_1)
  have b: "set (sbp_from None ?s1) \<subseteq> set ?s1" by (rule set_sbp)
  have c: "set (se_from None (sbp_from None ?s1)) \<subseteq> set (sbp_from None ?s1) \<union> {CHR '' ''}"
    by (rule set_se)
  from a b c have "set (filter py_isspace (se_from None (sbp_from None ?s1))) \<subseteq> {CHR '' ''}"
    by auto
  with False show ?thesis by (simp add: ecfr_clean_text_def re_sub_def Let_def only_space_ws_def)
qed

lemma split_nl_no_newline: "newline \<notin> set s \<Longrightarrow> split_nl s = [s]"
  by (induction s) auto

lemma newline_is_space: "py_isspace newline \<and> newline \<noteq> CHR '' ''"
  by (simp add: py_isspace_def newline_def)

lemma only_space_one_line: "only_space_ws t \<Longrightarrow> split_nl t = [t]"
proof -
  assume "only_space_ws t"
  with newline_is_space have "newline \<notin> set t" unfolding only_space_ws_def by auto
  then show ?thesis by (rule split_nl_no_newline)
qed

text \<open>An element whose text runs over several lines, with an emphasized child whose text
  and tail do so too.\<close>

lemma flatten_example:
  "extract_text_content
     (Element ''P'' [] (Some (''First line'' @ [newline] @ ''  second line .Next''))
        None [Element ''I'' [] (Some ('' one'' @ [newline] @ ''two '')) (Some ([newline] @ ''end'')) []])
   = ''First line second line. Next*one two* end''"
  by code_simp

text \<open>
  Claim C10. Every string the inline text extractor returns is whitespace-normalized: it
  neither starts nor ends with a whitespace character, it holds no two whitespace
  characters in a row, and no whitespace character stands right before one of the
  punctuation marks \<^verbatim>\<open>.,:;!?\<close>. The only whitespace character in it is the space, so that
  content of several lines is flattened to one line whose words are separated by single
  spaces, as on the element above.
\<close>

theorem extracted_text_is_normalized:
  "no_outer_ws (extract_text_content e) \<and> no_ws_pair (extract_text_content e)
   \<and> no_ws_before_punct (extract_text_content e)
   \<and> only_space_ws (extract_text_content e)
   \<and> split_nl (extract_text_content e) = [extract_text_content e]
   \<and> extract_text_content
     (Element ''P'' [] (Some (''First line'' @ [newline] @ ''  second line .Next''))
        None [Element ''I'' [] (Some ('' one'' @ [newline] @ ''two '')) (Some ([newline] @ ''end'')) []])
   = ''First line second line. Next*one two* end''"
proof -
  have "only_space_ws (extract_text_content e)"
    by (cases e) (simp add: ecfr_clean_text_only_space)
  moreover from this have "split_nl (extract_text_content e) = [extract_text_content e]"
    by (rule only_space_one_line)
  moreover have "no_outer_ws (extract_text_content e) \<and> no_ws_pair (extract_text_content e)
   \<and> no_ws_before_punct (extract_text_content e)"
    by (cases e) (simp add: ecfr_clean_text_normalized)
  ultimately show ?thesis using flatten_example by blast
qed

section \<open>The order of the pattern table\<close>

subsection \<open>Character classes under case-insensitive matching\<close>

lemma in_cls_i:
  "in_cls IGNORECASE xs c =
     (list_ex (\<lambda>x. in_cset x (py_lower c)) xs \<or> list_ex (\<lambda>x. in_cset x (py_upper (py_lower c))) xs)"
  by (simp add: in_cls_def IGNORECASE_def)

lemma lit_eq_i: "lit_eq IGNORECASE a c = (py_lower c = py_lower a)"
  by (simp add: lit_eq_def IGNORECASE_def)

lemma upper_of_lower_not_digit:
  "list_all (\<lambda>l. \<not> py_isdecimal l \<and> \<not> py_isdecimal (py_upper l)) (ascii_lower @ latin1_lower)"
  by code_simp

lemma digit_facts:
  "list_all (\<lambda>c. \<not> py_isspace c \<and> c \<noteq> py_lower CHR ''.'' \<and> \<not> in_range CHR ''A'' CHR ''Z'' c) ascii_digits"
  by code_simp

lemma dot_facts:
  "py_lower CHR ''.'' = CHR ''.'' \<and> py_upper CHR ''.'' = CHR ''.'' \<and> \<not> py_isspace CHR ''.''"
  by code_simp

lemma letter_facts:
  "list_all (\<lambda>l. \<not> py_isdecimal l \<and> \<not> py_isdecimal (py_upper l) \<and> l \<noteq> py_lower CHR ''.'') ascii_lower"
  by code_simp

lemma digit_class_i:
  assumes "in_cls IGNORECASE [CDig] c"
  shows "py_lower c \<in> set ascii_digits \<and> py_upper (py_lower c) = py_lower c"
proof (cases "py_lower c \<in> set (ascii_lower @ latin1_lower)")
  case True
  with upper_of_lower_not_digit
  have "\<not> py_isdecimal (py_lower c) \<and> \<not> py_isdecimal (py_upper (py_lower c))"
    unfolding list_all_iff by blast
  with assms show ?thesis by (simp add: in_cls_i)
next
  case False
  then have u: "py_upper (py_lower c) = py_lower c" unfolding py_upper_def by simp
  with assms have "py_isdecimal (py_lower c)" by (simp add: in_cls_i)
  with u show ?thesis by (simp add: py_isdecimal_def)
qed

lemma digit_not_space_i: "in_cls IGNORECASE [CDig] c \<Longrightarrow> \<not> in_cls IGNORECASE [CSpc] c"
proof -
  assume "in_cls IGNORECASE [CDig] c"
  from digit_class_i[OF this] have d: "py_lower c \<in> set ascii_digits"
    and u: "py_upper (py_lower c) = py_lower c" by blast+
  from d digit_facts have "\<not> py_isspace (py_lower c)" unfolding list_all_iff by blast
  with u show ?thesis by (simp add: in_cls_i)
qed

lemma digit_not_dot_i: "in_cls IGNORECASE [CDig] c \<Longrightarrow> \<not> lit_eq IGNORECASE CHR ''.'' c"
proof -
  assume "in_cls IGNORECASE [CDig] c"
  from digit_class_i[OF this] have d: "py_lower c \<in> set ascii_digits" by blast
  from d digit_facts have "py_lower c \<noteq> py_lower CHR ''.''" unfolding list_all_iff by blast
  then show ?thesis by (simp add: lit_eq_i)
qed

lemma digit_not_letter_i:
  "in_cls IGNORECASE [CDig] c \<Longrightarrow> \<not> in_cls IGNORECASE [CRng CHR ''A'' CHR ''Z''] c"
proof -
  assume "in_cls IGNORECASE [CDig] c"
  from digit_class_i[OF this] have d: "py_lower c \<in> set ascii_digits"
    and u: "py_upper (py_lower c) = py_lower c" by blast+
  from d digit_facts have "\<not> in_range CHR ''A'' CHR ''Z'' (py_lower c)" unfolding list_all_iff by blast
  with u show ?thesis by (simp add: in_cls_i)
qed

lemma dot_not_space_i: "lit_eq IGNORECASE CHR ''.'' c \<Longrightarrow> \<not> in_cls IGNORECASE [CSpc] c"
proof -
  assume "lit_eq IGNORECASE CHR ''.'' c"
  with dot_facts have "py_lower c = CHR ''.''" by (simp add: lit_eq_i)
  with dot_facts show ?thesis by (simp add: in_cls_i)
qed

lemma lit_letter_i:
  assumes "lit_eq IGNORECASE a c" "py_lower a \<in> set ascii_lower"
  shows "\<not> in_cls IGNORECASE [CDig] c" "\<not> lit_eq IGNORECASE CHR ''.'' c"
proof -
  from assms have l: "py_lower c = py_lower a" by (simp add: lit_eq_i)
  from assms(2) letter_facts have f: "\<not> py_isdecimal (py_lower a)" "\<not> py_isdecimal (py_upper (py_lower a))"
      "py_lower a \<noteq> py_lower CHR ''.''"
    unfolding list_all_iff by blast+
  from l f show "\<not> in_cls IGNORECASE [CDig] c" by (simp add: in_cls_i)
  from l f show "\<not> lit_eq IGNORECASE CHR ''.'' c" by (simp add: lit_eq_i)
qed

lemma lit_other_i: "lit_eq IGNORECASE a c \<Longrightarrow> py_lower b \<noteq> py_lower a \<Longrightarrow> \<not> lit_eq IGNORECASE b c"
  by (simp add: lit_eq_i)

subsection \<open>What a line that matches a pattern starts with\<close>

lemma re_match_None: "re_match f r s = None \<longleftrightarrow> then_match f r accept (None, s, []) = []"
  by (simp add: re_match_def mt_then[symmetric] split: list.splits)

lemma rej_digit_space:
  "rejects_cont (in_cls IGNORECASE [CDig]) (close_group n s (then_match IGNORECASE (Cls [CSpc]) F))"
  by (intro rejects_close rejects_Cls) (rule digit_not_space_i)

lemma rej_digit_dot:
  "rejects_cont (in_cls IGNORECASE [CDig]) (then_match IGNORECASE (Lit CHR ''.'') F)"
  by (intro rejects_Lit) (rule digit_not_dot_i)

lemma close_group_apply:
  "close_group n s F (p', s', g') = F (p', s', (n, take (length s - length s') s) # g')"
  by (simp add: close_group_def)

lemmas then_rules = then_Seq then_Bol then_Grp then_Cls then_Lit close_group_apply

lemma main_section_match:
  assumes "then_match IGNORECASE pat_main_section accept (None, s, []) \<noteq> []"
  shows "\<exists>c cs x r. s = c # cs \<and> in_cls IGNORECASE [CDig] c
           \<and> dropWhile (in_cls IGNORECASE [CDig]) cs = x # r \<and> in_cls IGNORECASE [CSpc] x"
  using assms unfolding pat_main_section_def title_rest_def append.simps seqs.simps
  by (auto simp add: then_rules then_Star_Cls[OF rej_digit_space] split: list.splits if_splits)

lemma main_section_shape:
  assumes "re_match IGNORECASE pat_main_section s \<noteq> None"
  shows "heading_shape s = 3"
proof -
  from assms have "then_match IGNORECASE pat_main_section accept (None, s, []) \<noteq> []"
    by (simp add: re_match_None)
  from main_section_match[OF this] show ?thesis
    by (auto simp add: heading_shape_def)
qed

lemma subsection_match:
  assumes "then_match IGNORECASE pat_subsection accept (None, s, []) \<noteq> []"
  shows "\<exists>c cs x y r z r2. s = c # cs \<and> in_cls IGNORECASE [CDig] c
           \<and> dropWhile (in_cls IGNORECASE [CDig]) cs = x # y # r \<and> lit_eq IGNORECASE CHR ''.'' x
           \<and> in_cls IGNORECASE [CDig] y
           \<and> dropWhile (in_cls IGNORECASE [CDig]) r = z # r2 \<and> in_cls IGNORECASE [CSpc] z"
  using assms unfolding pat_subsection_def title_rest_def append.simps seqs.simps
  by (auto simp add: then_rules then_Star_Cls[OF rej_digit_space] then_Star_Cls[OF rej_digit_dot]
        split: list.splits if_splits)

lemma subsubsection_match:
  assumes "then_match IGNORECASE pat_subsubsection accept (None, s, []) \<noteq> []"
  shows "\<exists>c cs x y r z r2. s = c # cs \<and> in_cls IGNORECASE [CDig] c
           \<and> dropWhile (in_cls IGNORECASE [CDig]) cs = x # y # r \<and> lit_eq IGNORECASE CHR ''.'' x
           \<and> in_cls IGNORECASE [CDig] y
           \<and> dropWhile (in_cls IGNORECASE [CDig]) r = z # r2 \<and> lit_eq IGNORECASE CHR ''.'' z"
  using assms unfolding pat_subsubsection_def title_rest_def append.simps seqs.simps
  by (auto simp add: then_rules then_Star_Cls[OF rej_digit_space] then_Star_Cls[OF rej_digit_dot]
        split: list.splits if_splits)

lemma item_match:
  assumes "then_match IGNORECASE pat_item accept (None, s, []) \<noteq> []"
  shows "\<exists>c d r. s = c # d # r \<and> in_cls IGNORECASE [CRng CHR ''A'' CHR ''Z''] c
           \<and> lit_eq IGNORECASE CHR ''.'' d"
  using assms unfolding pat_item_def title_rest_def append.simps seqs.simps
  by (auto simp add: then_rules split: list.splits if_splits)

lemma two_literals:
  assumes "then_match f (Lit a) (then_match f (Lit b) F) (p, s, g) \<noteq> []"
  shows "\<exists>c d r. s = c # d # r \<and> lit_eq f a c \<and> lit_eq f b d"
  using assms by (auto simp add: then_Lit split: list.splits if_splits)

lemma chapter_match:
  assumes "then_match IGNORECASE pat_chapter accept (None, s, []) \<noteq> []"
  shows "\<exists>c d r. s = c # d # r \<and> lit_eq IGNORECASE CHR ''C'' c \<and> lit_eq IGNORECASE CHR ''H'' d"
  using assms unfolding pat_chapter_def lits_def append.simps list.map seqs.simps then_Seq then_Bol
  by (rule two_literals)

lemma section_match:
  assumes "then_match IGNORECASE pat_section accept (None, s, []) \<noteq> []"
  shows "\<exists>c d r. s = c # d # r \<and> lit_eq IGNORECASE CHR ''S'' c \<and> lit_eq IGNORECASE CHR ''E'' d"
  using assms unfolding pat_section_def lits_def append.simps list.map seqs.simps then_Seq then_Bol
  by (rule two_literals)

lemma table_match:
  assumes "then_match IGNORECASE pat_table accept (None, s, []) \<noteq> []"
  shows "\<exists>c d r. s = c # d # r \<and> lit_eq IGNORECASE CHR ''T'' c \<and> lit_eq IGNORECASE CHR ''A'' d"
  using assms unfolding pat_table_def lits_def append.simps list.map seqs.simps then_Seq then_Bol
  by (rule two_literals)

lemma figure_match:
  assumes "then_match IGNORECASE pat_figure accept (None, s, []) \<noteq> []"
  shows "\<exists>c d r. s = c # d # r \<and> lit_eq IGNORECASE CHR ''F'' c \<and> lit_eq IGNORECASE CHR ''I'' d"
  using assms unfolding pat_figure_def lits_def append.simps list.map seqs.simps then_Seq then_Bol
  by (rule two_literals)

lemma literal_facts:
  "list_all (\<lambda>a. py_lower a \<in> set ascii_lower) ''CHSETAFI''
   \<and> py_lower CHR ''C'' \<noteq> py_lower CHR ''S'' \<and> py_lower CHR ''C'' \<noteq> py_lower CHR ''T''
   \<and> py_lower CHR ''C'' \<noteq> py_lower CHR ''F'' \<and> py_lower CHR ''S'' \<noteq> py_lower CHR ''T''
   \<and> py_lower CHR ''S'' \<noteq> py_lower CHR ''F'' \<and> py_lower CHR ''T'' \<noteq> py_lower CHR ''F''"
  by code_simp

lemma literal_lower: "a \<in> set ''CHSETAFI'' \<Longrightarrow> py_lower a \<in> set ascii_lower"
  using literal_facts unfolding list_all_iff by blast

lemma two_literals_shape:
  assumes "s = c # d # r" "lit_eq IGNORECASE a c" "lit_eq IGNORECASE b d"
    "a \<in> set ''CHSETAFI''" "b \<in> set ''CHSETAFI''"
  shows "heading_shape s =
     (if lit_eq IGNORECASE CHR ''C'' c then 1
      else if lit_eq IGNORECASE CHR ''S'' c then 2
      else if lit_eq IGNORECASE CHR ''T'' c then 7
      else if lit_eq IGNORECASE CHR ''F'' c then 8
      else 0)"
proof -
  have "\<not> in_cls IGNORECASE [CDig] c"
    using lit_letter_i(1)[OF assms(2) literal_lower[OF assms(4)]] .
  moreover have "\<not> lit_eq IGNORECASE CHR ''.'' d"
    using lit_letter_i(2)[OF assms(3) literal_lower[OF assms(5)]] .
  ultimately show ?thesis by (simp add: heading_shape_def assms(1))
qed

lemma chapter_shape:
  assumes "re_match IGNORECASE pat_chapter s \<noteq> None"
  shows "heading_shape s = 1"
proof -
  from assms have "then_match IGNORECASE pat_chapter accept (None, s, []) \<noteq> []"
    by (simp add: re_match_None)
  from chapter_match[OF this] obtain c d r where
    s: "s = c # d # r" and c: "lit_eq IGNORECASE CHR ''C'' c" and d: "lit_eq IGNORECASE CHR ''H'' d"
    by blast
  from two_literals_shape[OF s c d] c show ?thesis by simp
qed

lemma section_shape:
  assumes "re_match IGNORECASE pat_section s \<noteq> None"
  shows "heading_shape s = 2"
proof -
  from assms have "then_match IGNORECASE pat_section accept (None, s, []) \<noteq> []"
    by (simp add: re_match_None)
  from section_match[OF this] obtain c d r where
    s: "s = c # d # r" and c: "lit_eq IGNORECASE CHR ''S'' c" and d: "lit_eq IGNORECASE CHR ''E'' d"
    by blast
  from literal_facts have "\<not> lit_eq IGNORECASE CHR ''C'' c"
    by (intro lit_other_i[OF c]) simp
  with two_literals_shape[OF s c d] c show ?thesis by simp
qed

lemma table_shape:
  assumes "re_match IGNORECASE pat_table s \<noteq> None"
  shows "heading_shape s = 7"
proof -
  from assms have "then_match IGNORECASE pat_table accept (None, s, []) \<noteq> []"
    by (simp add: re_match_None)
  from table_match[OF this] obtain c d r where
    s: "s = c # d # r" and c: "lit_eq IGNORECASE CHR ''T'' c" and d: "lit_eq IGNORECASE CHR ''A'' d"
    by blast
  from literal_facts have "\<not> lit_eq IGNORECASE CHR ''C'' c" "\<not> lit_eq IGNORECASE CHR ''S'' c"
    by (intro lit_other_i[OF c]; simp)+
  with two_literals_shape[OF s c d] c show ?thesis by simp
qed

lemma figure_shape:
  assumes "re_match IGNORECASE pat_figure s \<noteq> None"
  shows "heading_shape s = 8"
proof -
  from assms have "then_match IGNORECASE pat_figure accept (None, s, []) \<noteq> []"
    by (simp add: re_match_None)
  from figure_match[OF this] obtain c d r where
    s: "s = c # d # r" and c: "lit_eq IGNORECASE CHR ''F'' c" and d: "lit_eq IGNORECASE CHR ''I'' d"
    by blast
  from literal_facts have "\<not> lit_eq IGNORECASE CHR ''C'' c" "\<not> lit_eq IGNORECASE CHR ''S'' c"
      "\<not> lit_eq IGNORECASE CHR ''T'' c"
    by (intro lit_other_i[OF c]; simp)+
  with two_literals_shape[OF s c d] c show ?thesis by simp
qed

lemma item_shape:
  assumes "re_match IGNORECASE pat_item s \<noteq> None"
  shows "heading_shape s = 6"
proof -
  from assms have "then_match IGNORECASE pat_item accept (None, s, []) \<noteq> []"
    by (simp add: re_match_None)
  from item_match[OF this] obtain c d r where
    s: "s = c # d # r" and c: "in_cls IGNORECASE [CRng CHR ''A'' CHR ''Z''] c"
    and d: "lit_eq IGNORECASE CHR ''.'' d"
    by blast
  from c digit_not_letter_i[of c] have "\<not> in_cls IGNORECASE [CDig] c" by blast
  with d show ?thesis by (simp add: heading_shape_def s)
qed

lemma subsection_shape:
  assumes "re_match IGNORECASE pat_subsection s \<noteq> None"
  shows "heading_shape s = 4"
proof -
  from assms have "then_match IGNORECASE pat_subsection accept (None, s, []) \<noteq> []"
    by (simp add: re_match_None)
  from subsection_match[OF this] obtain c cs x y r z r2 where
    s: "s = c # cs" and c: "in_cls IGNORECASE [CDig] c"
    and d1: "dropWhile (in_cls IGNORECASE [CDig]) cs = x # y # r" and x: "lit_eq IGNORECASE CHR ''.'' x"
    and y: "in_cls IGNORECASE [CDig] y"
    and d2: "dropWhile (in_cls IGNORECASE [CDig]) r = z # r2" and z: "in_cls IGNORECASE [CSpc] z"
    by blast
  from x have "\<not> in_cls IGNORECASE [CSpc] x" by (rule dot_not_space_i)
  with c d1 x y d2 z show ?thesis by (simp add: heading_shape_def s)
qed

lemma subsubsection_shape:
  assumes "re_match IGNORECASE pat_subsubsection s \<noteq> None"
  shows "heading_shape s = 5"
proof -
  from assms have "then_match IGNORECASE pat_subsubsection accept (None, s, []) \<noteq> []"
    by (simp add: re_match_None)
  from subsubsection_match[OF this] obtain c cs x y r z r2 where
    s: "s = c # cs" and c: "in_cls IGNORECASE [CDig] c"
    and d1: "dropWhile (in_cls IGNORECASE [CDig]) cs = x # y # r" and x: "lit_eq IGNORECASE CHR ''.'' x"
    and y: "in_cls IGNORECASE [CDig] y"
    and d2: "dropWhile (in_cls IGNORECASE [CDig]) r = z # r2" and z: "lit_eq IGNORECASE CHR ''.'' z"
    by blast
  from x z have "\<not> in_cls IGNORECASE [CSpc] x" "\<not> in_cls IGNORECASE [CSpc] z"
    by (simp_all add: dot_not_space_i)
  with c d1 x y d2 z show ?thesis by (simp add: heading_shape_def s)
qed

lemma other_shape_None:
  "heading_shape s \<noteq> 1 \<Longrightarrow> re_match IGNORECASE pat_chapter s = None"
  "heading_shape s \<noteq> 2 \<Longrightarrow> re_match IGNORECASE pat_section s = None"
  "heading_shape s \<noteq> 3 \<Longrightarrow> re_match IGNORECASE pat_main_section s = None"
  "heading_shape s \<noteq> 4 \<Longrightarrow> re_match IGNORECASE pat_subsection s = None"
  "heading_shape s \<noteq> 5 \<Longrightarrow> re_match IGNORECASE pat_subsubsection s = None"
  "heading_shape s \<noteq> 6 \<Longrightarrow> re_match IGNORECASE pat_item s = None"
  "heading_shape s \<noteq> 7 \<Longrightarrow> re_match IGNORECASE pat_table s = None"
  "heading_shape s \<noteq> 8 \<Longrightarrow> re_match IGNORECASE pat_figure s = None"
  using chapter_shape section_shape main_section_shape subsection_shape subsubsection_shape
    item_shape table_shape figure_shape by blast+

text \<open>
  Claim C5. For every line, the first pattern of the source's table that matches it and
  the first pattern that matches it in the specification's order are the same, with the
  same groups: at most one pattern matches a line, so no pattern shadows another, and the
  segmenter classifies the line as the specification's order would.
\<close>

theorem pattern_order_is_immaterial:
  "match_patterns patterns line = match_patterns patterns_spec_order line"
proof -
  consider "heading_shape line = 1" | "heading_shape line = 2" | "heading_shape line = 3"
    | "heading_shape line = 4" | "heading_shape line = 5" | "heading_shape line = 6"
    | "heading_shape line = 7" | "heading_shape line = 8"
    | "heading_shape line \<notin> {1, 2, 3, 4, 5, 6, 7, 8}"
    by blast
  then show ?thesis
    by cases (simp_all add: patterns_def patterns_spec_order_def other_shape_None
                split: option.splits)
qed

section \<open>The keyword pass and the two pipelines\<close>

subsection \<open>The tree pipeline adds no emphasis marker to plain text\<close>

lemma set_inline_markup:
  "tag c \<noteq> ''E'' \<Longrightarrow> tag c \<noteq> ''I'' \<Longrightarrow> set (inline_markup c t) \<subseteq> set t \<union> {CHR ''^'', CHR ''_''}"
  by (auto simp add: inline_markup_def)

lemma no_asterisk_extract:
  "markup_free e \<Longrightarrow> CHR ''*'' \<notin> set (texts e) \<Longrightarrow> CHR ''*'' \<notin> set (extract_text_content e)"
proof (induction e)
  case (Element tg at tx ta ch)
  have child: "CHR ''*'' \<notin> set (inline_markup c (extract_text_content c) @ opt_text (tail c))"
    if c: "c \<in> set ch" for c
  proof -
    from c Element.prems have mf: "markup_free c" "tag c \<noteq> ''E''" "tag c \<noteq> ''I''"
      and tx: "CHR ''*'' \<notin> set (texts c)" "CHR ''*'' \<notin> set (opt_text (tail c))"
      by (auto simp: list_all_iff)
    from Element.IH[OF c mf(1) tx(1)] set_inline_markup[OF mf(2,3), of "extract_text_content c"]
    have "CHR ''*'' \<notin> set (inline_markup c (extract_text_content c))" by auto
    with tx show ?thesis by simp
  qed
  from Element.prems have "CHR ''*'' \<notin> set (opt_text tx)" by simp
  with child have "CHR ''*'' \<notin> set (concat (opt_text tx #
      map (\<lambda>child. inline_markup child (extract_text_content child) @ opt_text (tail child)) ch))"
    by auto
  with set_ecfr_clean_text show ?case by (fastforce simp del: set_concat)
qed

lemma no_asterisk_paragraph:
  "markup_free e \<Longrightarrow> CHR ''*'' \<notin> set (texts e) \<Longrightarrow> CHR ''*'' \<notin> set (process_paragraph e)"
  using no_asterisk_extract[of e] by (simp add: process_paragraph_def Let_def newline_def)

subsection \<open>The matcher on the patterns of the second pass\<close>

lemma not_word_after_dropWhile: "\<not> word_after (dropWhile py_isword s)"
proof (cases "dropWhile py_isword s")
  case Nil
  show ?thesis unfolding word_after_def Nil by simp
next
  case (Cons x xs)
  with hd_dropWhile[of py_isword s] have "\<not> py_isword x" by simp
  then show ?thesis by (simp add: word_after_def Cons)
qed

lemma takeWhile_dropWhile_Nil: "takeWhile P (dropWhile P s) = []"
  by (induction s) auto

lemma concat_map_run_in:
  assumes "rejects_in_run P F"
  shows "P d \<Longrightarrow> concat (map F (run_states P (Some d) s g)) = F (run_prev P (Some d) s, dropWhile P s, g)"
proof (induction s arbitrary: d)
  case Nil
  show ?case by (simp add: run_prev_def)
next
  case (Cons c cs)
  show ?case
  proof (cases "P c")
    case True
    with assms Cons.prems have "F (Some d, c # cs, g) = []" by (simp add: rejects_in_run_def)
    with True Cons.IH[of c] show ?thesis by (simp add: run_prev_Cons)
  next
    case False
    then show ?thesis by (simp add: run_prev_not)
  qed
qed

lemma rejects_cont_in_run: "rejects_cont P F \<Longrightarrow> rejects_in_run P F"
  by (simp add: rejects_cont_def rejects_in_run_def)

lemma in_cls_digit: "in_cls no_flags [CDig] = py_isdecimal"
  by (rule ext) (simp add: in_cls_no_flags)

lemma run_prev_takeWhile:
  "P c \<Longrightarrow> run_prev P (Some c) cs = Some (last (takeWhile P (c # cs)))"
  by (simp add: run_prev_def)

lemma then_Plus_digit:
  assumes "rejects_in_run py_isdecimal F"
  shows "then_match no_flags digit (then_match no_flags (Star digit) F) (p, s, g) =
     (case number_at s of None \<Rightarrow> [] | Some (d, rest) \<Rightarrow> F (Some (last d), rest, g))"
proof (cases s)
  case Nil
  then show ?thesis by (simp add: then_Cls number_at_def)
next
  case (Cons c cs)
  show ?thesis
  proof (cases "py_isdecimal c")
    case False
    then show ?thesis by (simp add: Cons then_Cls number_at_def in_cls_digit)
  next
    case True
    have "then_match no_flags (Star digit) F (Some c, cs, g)
            = F (run_prev py_isdecimal (Some c) cs, dropWhile py_isdecimal cs, g)"
      using concat_map_run_in[OF assms True, of cs g]
      by (simp add: then_match_def mt_Star_Cls in_cls_digit)
    with True show ?thesis
      by (simp add: Cons then_Cls number_at_def in_cls_digit run_prev_def)
  qed
qed

lemma then_Wb:
  "then_match f Wb F (p, s, g) = (if word_before p \<noteq> word_after s then F (p, s, g) else [])"
  by (simp add: then_match_def)

lemma decimal_is_word: "py_isdecimal c \<Longrightarrow> py_isword c"
  by (simp add: py_isdecimal_def py_isword_def py_isalnum_def)

lemma number_at_Some:
  assumes "number_at s = Some (d, rest)"
  shows "s = d @ rest" and "d \<noteq> []" and "py_isword (last d)" and "word_after s"
proof -
  from assms have d: "d = takeWhile py_isdecimal s" and r: "rest = dropWhile py_isdecimal s"
    and ne: "takeWhile py_isdecimal s \<noteq> []"
    by (auto simp: number_at_def split: if_splits)
  show "s = d @ rest" by (simp add: d r)
  show "d \<noteq> []" using ne d by simp
  have "last d \<in> set (takeWhile py_isdecimal s)" using ne d by simp
  then have "py_isdecimal (last d)" by (rule set_takeWhileD[THEN conjunct2])
  then show "py_isword (last d)" by (rule decimal_is_word)
  from ne obtain c cs where s: "s = c # cs" and "py_isdecimal c" by (cases s) (auto split: if_splits)
  then show "word_after s" by (simp add: word_after_def decimal_is_word)
qed

lemma number_at_not_Nil: "number_at s \<noteq> Some ([], r)"
  by (simp add: number_at_def)

lemma rej_close_Wb: "rejects_in_run py_isdecimal (close_group n s (then_match f Wb accept))"
  by (simp add: rejects_in_run_def close_group_def then_Wb word_before_def word_after_def decimal_is_word)

lemma rej_dot: "rejects_in_run py_isdecimal (then_match no_flags (Lit CHR ''.'') F)"
  by (rule rejects_cont_in_run, rule rejects_Lit) (auto simp: lit_eq_def no_flags_def py_isdecimal_def ascii_digits_def)

lemma lit_eq_no_flags: "lit_eq no_flags a c = (c = a)"
  by (simp add: lit_eq_def no_flags_def)

lemma take_prefix_len: "s = a @ b \<Longrightarrow> take (length s - length b) s = a"
  by simp

lemma accept_apply: "accept st = [st]"
  by (simp add: accept_def)

lemma then_dotted:
  assumes "rejects_in_run py_isdecimal F"
  shows "then_match no_flags
           (seqs [Plus digit, Lit CHR ''.'', Plus digit, Lit CHR ''.'', Plus digit]) F (p, s, g) =
     (case number_at s of
        None \<Rightarrow> []
      | Some (x, s1) \<Rightarrow>
          (case s1 of
             [] \<Rightarrow> []
           | c1 # t1 \<Rightarrow>
               if c1 \<noteq> CHR ''.'' then []
               else
                 (case number_at t1 of
                    None \<Rightarrow> []
                  | Some (y, s2) \<Rightarrow>
                      (case s2 of
                         [] \<Rightarrow> []
                       | c2 # t2 \<Rightarrow>
                           if c2 \<noteq> CHR ''.'' then []
                           else
                             (case number_at t2 of
                                None \<Rightarrow> []
                              | Some (z, s3) \<Rightarrow> F (Some (last z), s3, g))))))"
  unfolding seqs.simps then_Seq
  by (simp add: then_Plus_digit rej_dot assms then_Lit lit_eq_no_flags
        split: option.splits list.splits)

lemma dotted_ref_Some:
  assumes "dotted_ref s = Some (w, rest)"
  shows "s = w @ rest" and "w \<noteq> []" and "py_isword (last w)" and "word_after s"
proof -
  from assms obtain x s1 where x: "number_at s = Some (x, s1)"
    by (auto simp: dotted_ref_def split: option.splits)
  with assms obtain t1 where s1: "s1 = CHR ''.'' # t1"
    by (auto simp: dotted_ref_def split: option.splits list.splits if_splits)
  with x assms obtain y s2 where y: "number_at t1 = Some (y, s2)"
    by (auto simp: dotted_ref_def split: option.splits)
  with x s1 assms obtain t2 where s2: "s2 = CHR ''.'' # t2"
    by (auto simp: dotted_ref_def split: option.splits list.splits if_splits)
  with x s1 y assms obtain z where z: "number_at t2 = Some (z, rest)"
    and w: "w = x @ ''.'' @ y @ ''.'' @ z"
    by (auto simp: dotted_ref_def split: option.splits)
  from number_at_Some[OF x] number_at_Some[OF y] number_at_Some[OF z] s1 s2 w
  show "s = w @ rest" and "w \<noteq> []" and "py_isword (last w)" and "word_after s"
    by simp_all
qed

lemma mt_xref:
  "mt no_flags re_xref (p, s, []) =
     (if word_before p then []
      else (case dotted_ref s of
              None \<Rightarrow> []
            | Some (w, rest) \<Rightarrow> if word_after rest then [] else [(Some (last w), rest, [(1, w)])]))"
proof -
  let ?F = "close_group 1 s (then_match no_flags Wb accept)"
  have m: "mt no_flags re_xref (p, s, []) =
     (if word_before p \<noteq> word_after s
      then then_match no_flags
             (seqs [Plus digit, Lit CHR ''.'', Plus digit, Lit CHR ''.'', Plus digit]) ?F (p, s, [])
      else [])"
    apply (subst mt_then)
    unfolding re_xref_def seqs.simps then_Seq
    by (simp add: then_Wb then_Grp then_Seq)
  show ?thesis
  proof (cases "dotted_ref s")
    case None
    then have "then_match no_flags
             (seqs [Plus digit, Lit CHR ''.'', Plus digit, Lit CHR ''.'', Plus digit]) ?F (p, s, []) = []"
      unfolding then_dotted[OF rej_close_Wb]
      by (auto simp add: dotted_ref_def split: option.splits list.splits if_splits)
    with None show ?thesis by (simp add: m)
  next
    case (Some a)
    obtain w rest where a: "a = (w, rest)" by (cases a)
    from Some a have d: "dotted_ref s = Some (w, rest)" by simp
    note f = dotted_ref_Some[OF d]
    from d have "then_match no_flags
             (seqs [Plus digit, Lit CHR ''.'', Plus digit, Lit CHR ''.'', Plus digit]) ?F (p, s, [])
           = ?F (Some (last w), rest, [])"
      unfolding then_dotted[OF rej_close_Wb]
      by (auto simp add: dotted_ref_def number_at_not_Nil split: option.splits list.splits if_splits)
    also have "\<dots> = (if word_after rest then [] else [(Some (last w), rest, [(1, w)])])"
      using f by (simp add: close_group_apply then_Wb accept_apply word_before_def)
    finally have i: "then_match no_flags
             (seqs [Plus digit, Lit CHR ''.'', Plus digit, Lit CHR ''.'', Plus digit]) ?F (p, s, [])
           = (if word_after rest then [] else [(Some (last w), rest, [(1, w)])])" .
    show ?thesis unfolding m i by (simp add: d f(4))
  qed
qed

lemma sub_from_mark_all:
  assumes "\<And>p s. mt f r (p, s, []) =
     (if word_before p then []
      else (case loc s of
              None \<Rightarrow> []
            | Some (w, rest) \<Rightarrow> if word_after rest then [] else [(Some (last w), rest, [(1, w)])]))"
  shows "sub_from f r [RLit m, RGrp 1, RLit m] p s = mark_all loc m p s"
proof (induction s arbitrary: p rule: length_induct)
  case (1 s)
  show ?case
  proof (cases s)
    case Nil
    show ?thesis
      by (subst sub_from.simps, subst mark_all.simps)
         (simp add: Nil assms Let_def split: option.splits)
  next
    case (Cons c cs)
    have ih1: "sub_from f r [RLit m, RGrp 1, RLit m] (Some c) cs = mark_all loc m (Some c) cs"
      using 1 Cons by simp
    have ih2: "length rest < length s \<Longrightarrow>
        sub_from f r [RLit m, RGrp 1, RLit m] q rest = mark_all loc m q rest" for q rest
      using 1 by simp
    show ?thesis
      apply (subst sub_from.simps, subst mark_all.simps)
      using ih1 ih2
      by (auto simp add: Cons assms Let_def grp_of_def split: option.splits)
  qed
qed

lemma seqs_Cons: "rs \<noteq> [] \<Longrightarrow> seqs (r # rs) = Seq r (seqs rs)"
  by (cases rs) simp_all

lemma alts_Cons: "rs \<noteq> [] \<Longrightarrow> alts (r # rs) = Alt r (alts rs)"
  by (cases rs) simp_all

lemma then_alts:
  "rs \<noteq> [] \<Longrightarrow> then_match f (alts rs) F st = concat (map (\<lambda>r. then_match f r F st) rs)"
proof (induction rs rule: list_nonempty_induct)
  case (single r)
  show ?case by simp
next
  case (cons r rs)
  then show ?case by (simp add: alts_Cons then_Alt)
qed

lemma then_lits:
  "k \<noteq> [] \<Longrightarrow>
   then_match f (lits k) F (p, s, g) =
     (if length k \<le> length s \<and> list_all2 (lit_eq f) k (take (length k) s)
      then F (Some (last (take (length k) s)), drop (length k) s, g) else [])"
proof (induction k arbitrary: p s rule: list_nonempty_induct)
  case (single a)
  show ?case by (cases s) (simp_all add: lits_def then_Lit)
next
  case (cons a k)
  have l: "lits (a # k) = Seq (Lit a) (lits k)"
    using cons.hyps by (simp add: lits_def seqs_Cons)
  show ?case
  proof (cases s)
    case Nil
    then show ?thesis by (simp add: l then_Seq then_Lit)
  next
    case (Cons c cs)
    have "take (length k) cs \<noteq> []" if "length k \<le> length cs"
      using that cons.hyps by (cases cs) auto
    then show ?thesis
      by (auto simp add: Cons l then_Seq then_Lit cons.IH)
  qed
qed

lemma list_all2_eq_rev: "list_all2 (\<lambda>a c. c = a) k t \<longleftrightarrow> t = k"
  by (induction k t rule: list_induct2') auto

lemma then_lits_no_flags:
  "k \<noteq> [] \<Longrightarrow>
   then_match no_flags (lits k) F (p, s, g) =
     (if take (length k) s = k then F (Some (last k), drop (length k) s, g) else [])"
proof -
  assume k: "k \<noteq> []"
  have "take (length k) s = k \<Longrightarrow> length k \<le> length s"
    by (metis length_take min.absorb_iff2 min.cobounded1 nat_le_linear take_all)
  then show ?thesis
    by (auto simp add: then_lits[OF k] lit_eq_no_flags[abs_def] list_all2_eq_rev)
qed

lemma mt_phrase:
  assumes k: "k \<noteq> []" and w: "py_isword (hd k)"
  shows "mt no_flags (seqs [Wb, Grp n (Seq (lits k) (Plus digit)), Wb]) (p, s, []) =
     (if word_before p then []
      else (case phrase_ref k s of
              None \<Rightarrow> []
            | Some (w, rest) \<Rightarrow> if word_after rest then [] else [(Some (last w), rest, [(n, w)])]))"
proof -
  let ?F = "close_group n s (then_match no_flags Wb accept)"
  have m: "mt no_flags (seqs [Wb, Grp n (Seq (lits k) (Plus digit)), Wb]) (p, s, []) =
     (if word_before p \<noteq> word_after s
      then (if take (length k) s = k
            then (case number_at (drop (length k) s) of
                    None \<Rightarrow> []
                  | Some (d, rest) \<Rightarrow> ?F (Some (last d), rest, []))
            else [])
      else [])"
    apply (subst mt_then)
    unfolding seqs.simps then_Seq
    by (simp add: then_Wb then_Grp then_Seq then_lits_no_flags[OF k] then_Plus_digit[OF rej_close_Wb])
  show ?thesis
  proof (cases "phrase_ref k s")
    case None
    then show ?thesis unfolding m by (auto simp add: phrase_ref_def split: option.splits if_splits)
  next
    case (Some a)
    obtain x rest where a: "a = (x, rest)" by (cases a)
    from Some a obtain d where tk: "take (length k) s = k"
      and n: "number_at (drop (length k) s) = Some (d, rest)" and x: "x = k @ d"
      by (auto simp add: phrase_ref_def split: option.splits if_splits)
    note f = number_at_Some[OF n]
    have s: "s = k @ d @ rest" using tk f(1) by (metis append_take_drop_id)
    have ws: "word_after s" using k w s by (cases k) (auto simp: word_after_def)
    have g: "take (length s - length rest) s = x" using s x by simp
    have l: "last x = last d" using x f(2) by simp
    show ?thesis unfolding m
      using Some a tk n ws g l f(3)
      by (simp add: close_group_apply then_Wb accept_apply word_before_def)
  qed
qed

lemma lower_is_word: "py_lower c \<in> set ascii_lower \<Longrightarrow> py_isword c"
  by (auto simp add: py_lower_def py_isword_def py_isalnum_def split: if_splits)

lemma lower_of_lower: "list_all (\<lambda>a. py_lower a = a) ascii_lower"
  by code_simp

lemma lit_eq_lower: "a \<in> set ascii_lower \<Longrightarrow> lit_eq IGNORECASE a c = (py_lower c = a)"
  using lower_of_lower by (simp add: lit_eq_i list_all_iff)

lemma list_all2_lower:
  "set k \<subseteq> set ascii_lower \<Longrightarrow> list_all2 (lit_eq IGNORECASE) k t \<longleftrightarrow> map py_lower t = k"
proof (induction k t rule: list_induct2')
  case (4 a k c t)
  then show ?case by (auto simp add: lit_eq_lower)
qed auto

lemma takeWhile_split:
  assumes "\<forall>x \<in> set t. P x" and "r = [] \<or> \<not> P (hd r)"
  shows "takeWhile P (t @ r) = t" and "dropWhile P (t @ r) = r"
  using assms by (cases r; simp add: takeWhile_append2 dropWhile_append2)+

lemma keyword_one:
  assumes k: "k \<noteq> []" and lw: "set k \<subseteq> set ascii_lower"
  shows "then_match IGNORECASE (lits k) (close_group n s (then_match IGNORECASE Wb accept)) (p, s, g) =
     (if map py_lower (takeWhile py_isword s) = k
      then [(Some (last (takeWhile py_isword s)), dropWhile py_isword s, (n, takeWhile py_isword s) # g)]
      else [])"
proof (cases "map py_lower (takeWhile py_isword s) = k")
  case True
  let ?w = "takeWhile py_isword s" and ?d = "dropWhile py_isword s"
  from True have len: "length ?w = length k" by (metis length_map)
  have s: "s = ?w @ ?d" by simp
  have tk: "take (length k) s = ?w" using len by (metis append_eq_conv_conj s)
  have dr: "drop (length k) s = ?d" using len by (metis append_eq_conv_conj s)
  have le: "length k \<le> length s" using len by (metis length_takeWhile_le)
  have wne: "?w \<noteq> []" using k len by auto
  then have "last ?w \<in> set ?w" by simp
  then have lastw: "py_isword (last ?w)" by (rule set_takeWhileD[THEN conjunct2])
  have nw: "\<not> word_after ?d" by (rule not_word_after_dropWhile)
  have grp: "take (length s - length ?d) s = ?w"
    using take_prefix_len[OF s] .
  show ?thesis
    using True le lastw nw grp
    by (simp add: then_lits[OF k] list_all2_lower[OF lw] tk dr close_group_apply then_Wb
          accept_apply word_before_def)
next
  case False
  have "\<not> (length k \<le> length s \<and> map py_lower (take (length k) s) = k
            \<and> \<not> word_after (drop (length k) s))"
  proof
    assume a: "length k \<le> length s \<and> map py_lower (take (length k) s) = k
            \<and> \<not> word_after (drop (length k) s)"
    let ?t = "take (length k) s" and ?r = "drop (length k) s"
    have "\<forall>x \<in> set ?t. py_isword x"
    proof
      fix x assume "x \<in> set ?t"
      then have "py_lower x \<in> set (map py_lower ?t)" by simp
      with a lw have "py_lower x \<in> set ascii_lower" by auto
      then show "py_isword x" by (rule lower_is_word)
    qed
    moreover from a have "?r = [] \<or> \<not> py_isword (hd ?r)"
      by (cases ?r) (auto simp: word_after_def)
    ultimately have "takeWhile py_isword (?t @ ?r) = ?t" by (rule takeWhile_split(1))
    then have "takeWhile py_isword s = ?t" by simp
    with a False show False by simp
  qed
  moreover have "py_isword (last (take (length k) s))"
    if "length k \<le> length s" "map py_lower (take (length k) s) = k"
  proof -
    let ?t = "take (length k) s"
    from that k have "?t \<noteq> []" by auto
    then have "last ?t \<in> set ?t" by simp
    then have "py_lower (last ?t) \<in> set (map py_lower ?t)" by simp
    with that lw have "py_lower (last ?t) \<in> set ascii_lower" by auto
    then show ?thesis by (rule lower_is_word)
  qed
  ultimately show ?thesis
    using False
    by (auto simp add: then_lits[OF k] list_all2_lower[OF lw] close_group_apply then_Wb
          accept_apply word_before_def)
qed

lemma concat_if_distinct:
  "distinct ks \<Longrightarrow> concat (map (\<lambda>k. if x = k then [y] else []) ks) = (if x \<in> set ks then [y] else [])"
  by (induction ks) auto

lemma mt_keywords:
  assumes ne: "kws \<noteq> []" and d: "distinct kws"
    and nice: "\<forall>k \<in> set kws. k \<noteq> [] \<and> set k \<subseteq> set ascii_lower"
  shows "mt IGNORECASE (seqs [Wb, Grp n (alts (map lits kws)), Wb]) (p, s, []) =
     (if word_before p then []
      else (case keyword_at kws s of
              None \<Rightarrow> []
            | Some (w, rest) \<Rightarrow> if word_after rest then [] else [(Some (last w), rest, [(n, w)])]))"
proof -
  let ?w = "takeWhile py_isword s" and ?d = "dropWhile py_isword s"
  let ?F = "close_group n s (then_match IGNORECASE Wb accept)"
  have one: "then_match IGNORECASE (lits k) ?F (p, s, []) =
               (if map py_lower ?w = k then [(Some (last ?w), ?d, [(n, ?w)])] else [])"
    if "k \<in> set kws" for k
    using that nice keyword_one[of k n s p "[]"] by blast
  have "then_match IGNORECASE (alts (map lits kws)) ?F (p, s, [])
          = concat (map (\<lambda>k. then_match IGNORECASE (lits k) ?F (p, s, [])) kws)"
    using ne by (simp add: then_alts comp_def)
  also have "\<dots> = concat (map (\<lambda>k. if map py_lower ?w = k then [(Some (last ?w), ?d, [(n, ?w)])] else []) kws)"
    using one by (simp cong: map_cong)
  also have "\<dots> = (if map py_lower ?w \<in> set kws then [(Some (last ?w), ?d, [(n, ?w)])] else [])"
    using d by (rule concat_if_distinct)
  finally have a: "then_match IGNORECASE (alts (map lits kws)) ?F (p, s, [])
          = (if map py_lower ?w \<in> set kws then [(Some (last ?w), ?d, [(n, ?w)])] else [])" .
  have m: "mt IGNORECASE (seqs [Wb, Grp n (alts (map lits kws)), Wb]) (p, s, []) =
     (if word_before p \<noteq> word_after s
      then then_match IGNORECASE (alts (map lits kws)) ?F (p, s, [])
      else [])"
    apply (subst mt_then)
    unfolding seqs.simps then_Seq
    by (simp add: then_Wb then_Grp)
  have nw: "\<not> word_after ?d" by (rule not_word_after_dropWhile)
  have ws: "word_after s" if "map py_lower ?w \<in> set kws"
  proof -
    from that nice have "?w \<noteq> []" by auto
    then show ?thesis by (cases s) (auto simp: word_after_def split: if_splits)
  qed
  show ?thesis
    unfolding m a using nw ws by (auto simp add: keyword_at_def)
qed

lemma terms_nice:
  "mandatory_terms \<noteq> [] \<and> distinct mandatory_terms
   \<and> (\<forall>k \<in> set mandatory_terms. k \<noteq> [] \<and> set k \<subseteq> set ascii_lower)
   \<and> permissive_terms \<noteq> [] \<and> distinct permissive_terms
   \<and> (\<forall>k \<in> set permissive_terms. k \<noteq> [] \<and> set k \<subseteq> set ascii_lower)"
  by (simp add: mandatory_terms_def permissive_terms_def ascii_lower_def)

lemma re_mandatory_terms: "re_mandatory = seqs [Wb, Grp 1 (alts (map lits mandatory_terms)), Wb]"
  by (simp add: re_mandatory_def mandatory_terms_def)

lemma re_permissive_terms: "re_permissive = seqs [Wb, Grp 1 (alts (map lits permissive_terms)), Wb]"
  by (simp add: re_permissive_def permissive_terms_def)

lemma sub_mandatory:
  "sub_from IGNORECASE re_mandatory [RLit m, RGrp 1, RLit m] p s
     = mark_all (keyword_at mandatory_terms) m p s"
  unfolding re_mandatory_terms
  by (rule sub_from_mark_all) (rule mt_keywords; simp add: terms_nice)

lemma sub_permissive:
  "sub_from IGNORECASE re_permissive [RLit m, RGrp 1, RLit m] p s
     = mark_all (keyword_at permissive_terms) m p s"
  unfolding re_permissive_terms
  by (rule sub_from_mark_all) (rule mt_keywords; simp add: terms_nice)

lemma sub_xref:
  "sub_from no_flags re_xref [RLit m, RGrp 1, RLit m] p s = mark_all dotted_ref m p s"
  by (rule sub_from_mark_all) (rule mt_xref)

lemma phrase_facts:
  "py_isword CHR ''S'' \<and> py_isword CHR ''C''"
  by code_simp

lemma sub_section_ref:
  "sub_from no_flags re_section_ref [RLit m, RGrp 1, RLit m] p s
     = mark_all (phrase_ref ''Section '') m p s"
  unfolding re_section_ref_def
  by (rule sub_from_mark_all) (rule mt_phrase; simp add: phrase_facts)

lemma sub_chapter_ref:
  "sub_from no_flags re_chapter_ref [RLit m, RGrp 1, RLit m] p s
     = mark_all (phrase_ref ''Chapter '') m p s"
  unfolding re_chapter_ref_def
  by (rule sub_from_mark_all) (rule mt_phrase; simp add: phrase_facts)

lemma format_references_marks:
  "format_references c =
     mark_all (phrase_ref ''Chapter '') ''**'' None
       (mark_all (phrase_ref ''Section '') ''**'' None
         (mark_all dotted_ref ''**'' None c))"
  by (simp only: format_references_def re_sub_def Let_def sub_xref sub_section_ref sub_chapter_ref)

lemma format_emphasis_marks:
  "format_emphasis c =
     mark_all (keyword_at permissive_terms) ''*'' None
       (mark_all (keyword_at mandatory_terms) ''**'' None c)"
  by (simp only: format_emphasis_def re_sub_def Let_def sub_mandatory sub_permissive)

subsection \<open>The two keyword passes, by words\<close>

lemma mark_words_run:
  "mark_words mk acc s
     = mk (acc @ takeWhile py_isword s) @ after_word mk (dropWhile py_isword s)"
  by (induction s arbitrary: acc) (simp_all add: after_word_def)

lemma mark_words_after:
  assumes "mk [] = []" and "d = [] \<or> \<not> py_isword (hd d)"
  shows "mark_words mk [] d = after_word mk d"
  using assms by (cases d) (auto simp add: after_word_def)

lemma not_word_dropWhile: "dropWhile py_isword s = [] \<or> \<not> py_isword (hd (dropWhile py_isword s))"
  using hd_dropWhile[of py_isword s] by blast

lemma mark_term_Nil: "[] \<notin> set kws \<Longrightarrow> mark_term kws m [] = []"
  by (simp add: mark_term_def)

lemma mark_all_keywords:
  assumes nn: "[] \<notin> set kws"
  shows "mark_all (keyword_at kws) m p s =
     (if word_before p
      then takeWhile py_isword s @ mark_words (mark_term kws m) [] (dropWhile py_isword s)
      else mark_words (mark_term kws m) [] s)"
proof (induction s arbitrary: p rule: length_induct)
  case (1 s)
  let ?mk = "mark_term kws m"
  note mk0 = mark_term_Nil[OF nn, of m]
  show ?case
  proof (cases s)
    case Nil
    show ?thesis
      by (subst mark_all.simps) (simp add: Nil keyword_at_def nn mk0)
  next
    case (Cons c cs)
    let ?w = "takeWhile py_isword s" and ?d = "dropWhile py_isword s"
    have dd: "mark_words ?mk [] ?d = after_word ?mk ?d"
      using mk0 not_word_dropWhile[of s] by (rule mark_words_after)
    have whole: "mark_words ?mk [] s = ?mk ?w @ after_word ?mk ?d"
      using mark_words_run[of ?mk "[]" s] by simp
    show ?thesis
    proof (cases "\<not> word_before p \<and> map py_lower ?w \<in> set kws")
      case True
      then have wne: "?w \<noteq> []" using nn by auto
      then have len: "length ?d < length s"
        using length_append[of ?w ?d] by (simp del: length_append)
      have lw: "py_isword (last ?w)"
        using wne set_takeWhileD[of "last ?w" py_isword s] by simp
      have nw: "\<not> word_after ?d" by (rule not_word_after_dropWhile)
      have tw: "takeWhile py_isword ?d = []" by (rule takeWhile_dropWhile_Nil)
      have ih: "mark_all (keyword_at kws) m (Some (last ?w)) ?d = mark_words ?mk [] ?d"
        using 1 len lw tw by (simp add: word_before_def)
      have "mark_all (keyword_at kws) m p s = m @ ?w @ m @ mark_all (keyword_at kws) m (Some (last ?w)) ?d"
        using True nw len by (subst mark_all.simps) (simp add: keyword_at_def)
      also have "\<dots> = ?mk ?w @ after_word ?mk ?d"
        using True by (simp add: ih dd mark_term_def)
      finally show ?thesis using True whole by simp
    next
      case False
      have step: "mark_all (keyword_at kws) m p s = c # mark_all (keyword_at kws) m (Some c) cs"
        using False by (subst mark_all.simps) (auto simp add: keyword_at_def Cons split: option.splits)
      show ?thesis
      proof (cases "py_isword c")
        case w: True
        have ih: "mark_all (keyword_at kws) m (Some c) cs
                    = takeWhile py_isword cs @ mark_words ?mk [] (dropWhile py_isword cs)"
          using 1 Cons w by (simp add: word_before_def)
        have tw: "?w = c # takeWhile py_isword cs" and dw: "?d = dropWhile py_isword cs"
          using w by (simp_all add: Cons)
        show ?thesis
        proof (cases "word_before p")
          case True
          then show ?thesis using step ih tw dw by simp
        next
          case nb: False
          with False have "?mk ?w = ?w" by (simp add: mark_term_def)
          with nb step ih tw dw whole dd show ?thesis by simp
        qed
      next
        case nw: False
        have ih: "mark_all (keyword_at kws) m (Some c) cs = mark_words ?mk [] cs"
          using 1 Cons nw by (simp add: word_before_def)
        from nw have "mark_words ?mk [] s = c # mark_words ?mk [] cs"
          by (simp add: Cons mk0)
        with nw step ih show ?thesis by (simp add: Cons)
      qed
    qed
  qed
qed

lemma mark_words_word_prefix:
  "list_all py_isword a \<Longrightarrow> mark_words mk b (a @ t) = mark_words mk (b @ a) t"
  by (induction a arbitrary: b) simp_all

lemma star_not_word: "\<not> py_isword CHR ''*''"
  by code_simp

lemma terms_disjoint:
  "set mandatory_terms \<inter> set permissive_terms = {} \<and> [] \<notin> set mandatory_terms
   \<and> [] \<notin> set permissive_terms"
  by (simp add: mandatory_terms_def permissive_terms_def)

lemma emphasis_mark_Nil: "emphasis_mark [] = []"
  using terms_disjoint by (simp add: emphasis_mark_def)

lemma second_pass_on_marked_word:
  assumes a: "list_all py_isword a" and t: "t = [] \<or> \<not> py_isword (hd t)"
  shows "mark_words (mark_term permissive_terms ''*'') []
           (mark_term mandatory_terms ''**'' a @ t)
         = emphasis_mark a @ after_word (mark_term permissive_terms ''*'') t"
proof -
  let ?mk2 = "mark_term permissive_terms ''*''"
  have mk0: "?mk2 [] = []" using terms_disjoint by (simp add: mark_term_def)
  have run: "mark_words ?mk2 b (a @ u) = ?mk2 (b @ a) @ after_word ?mk2 u"
    if "u = [] \<or> \<not> py_isword (hd u)" for b u
  proof -
    have "mark_words ?mk2 b (a @ u) = mark_words ?mk2 (b @ a) u"
      using a by (rule mark_words_word_prefix)
    also have "\<dots> = ?mk2 (b @ a) @ after_word ?mk2 u"
      using that by (cases u) (auto simp add: after_word_def)
    finally show ?thesis .
  qed
  show ?thesis
  proof (cases "map py_lower a \<in> set mandatory_terms")
    case True
    with terms_disjoint have np: "map py_lower a \<notin> set permissive_terms" by blast
    have e1: "mark_words ?mk2 [] (''**'' @ a @ ''**'' @ t)
            = ''**'' @ mark_words ?mk2 [] (a @ ''**'' @ t)"
      by (simp add: star_not_word mk0)
    have e2: "mark_words ?mk2 [] (a @ ''**'' @ t) = ?mk2 a @ after_word ?mk2 (''**'' @ t)"
      using run[of "''**'' @ t" "[]"] by (simp add: star_not_word)
    have e3: "after_word ?mk2 (''**'' @ t) = ''**'' @ mark_words ?mk2 [] t"
      by (simp add: after_word_def star_not_word mk0)
    have e4: "mark_words ?mk2 [] t = after_word ?mk2 t"
      using mk0 t by (rule mark_words_after)
    have "mark_words ?mk2 [] (mark_term mandatory_terms ''**'' a @ t)
            = mark_words ?mk2 [] (''**'' @ a @ ''**'' @ t)"
      using True by (simp add: mark_term_def)
    also have "\<dots> = ''**'' @ (?mk2 a @ (''**'' @ after_word ?mk2 t))"
      by (simp only: e1 e2 e3 e4)
    also have "\<dots> = emphasis_mark a @ after_word ?mk2 t"
      using True np by (simp add: mark_term_def emphasis_mark_def)
    finally show ?thesis .
  next
    case False
    then show ?thesis using run[OF t, of "[]"] by (simp add: mark_term_def emphasis_mark_def)
  qed
qed

lemma two_passes:
  "list_all py_isword acc \<Longrightarrow>
   mark_words (mark_term permissive_terms ''*'') []
     (mark_words (mark_term mandatory_terms ''**'') acc s)
   = mark_words emphasis_mark acc s"
proof (induction s arbitrary: acc)
  case Nil
  show ?case using second_pass_on_marked_word[OF Nil, of "[]"] by (simp add: after_word_def)
next
  case (Cons c cs)
  show ?case
  proof (cases "py_isword c")
    case True
    with Cons.prems have "list_all py_isword (acc @ [c])" by simp
    from Cons.IH[OF this] True show ?thesis by simp
  next
    case False
    have "list_all py_isword []" by simp
    from Cons.IH[OF this] False
      second_pass_on_marked_word[OF Cons.prems, of "c # mark_words (mark_term mandatory_terms ''**'') [] cs"]
    show ?thesis by (simp add: after_word_def)
  qed
qed

lemma format_emphasis_words: "format_emphasis c = mark_words emphasis_mark [] c"
  using terms_disjoint two_passes[of "[]" c]
  by (simp add: format_emphasis_marks mark_all_keywords word_before_def)

lemma format_content_marks:
  "format_content c =
     mark_words emphasis_mark []
       (mark_all (phrase_ref ''Chapter '') ''**'' None
         (mark_all (phrase_ref ''Section '') ''**'' None
           (mark_all dotted_ref ''**'' None (format_lists c))))"
  by (simp only: format_content_def format_emphasis_words format_references_marks)

lemma phrase_ref_Some:
  assumes "phrase_ref k s = Some (w, rest)"
  shows "s = w @ rest \<and> w \<noteq> []"
proof -
  from assms obtain n where tk: "take (length k) s = k"
    and n: "number_at (drop (length k) s) = Some (n, rest)" and w: "w = k @ n"
    by (auto simp add: phrase_ref_def split: option.splits if_splits)
  from number_at_Some(1,2)[OF n] tk w show ?thesis by (metis append.assoc append_take_drop_id append_is_Nil_conv)
qed

lemma keyword_at_Some:
  assumes "[] \<notin> set kws" and "keyword_at kws s = Some (w, rest)"
  shows "s = w @ rest \<and> w \<noteq> []"
  using assms by (auto simp add: keyword_at_def split: if_splits)

lemma located_text:
  "(dotted_ref s = Some (w, rest) \<longrightarrow> s = w @ rest \<and> w \<noteq> [])
   \<and> (phrase_ref k s = Some (w, rest) \<longrightarrow> s = w @ rest \<and> w \<noteq> [])
   \<and> (keyword_at mandatory_terms s = Some (w, rest) \<longrightarrow> s = w @ rest \<and> w \<noteq> [])
   \<and> (keyword_at permissive_terms s = Some (w, rest) \<longrightarrow> s = w @ rest \<and> w \<noteq> [])"
  using dotted_ref_Some(1,2)[of s w rest] phrase_ref_Some[of k s w rest]
    keyword_at_Some[of mandatory_terms s w rest] keyword_at_Some[of permissive_terms s w rest]
    terms_disjoint
  by blast

subsection \<open>The text pipeline's second pass on examples\<close>

lemma mandatory_keywords:
  "format_content ''shall'' = ''**shall**'' \<and> format_content ''must'' = ''**must**''
   \<and> format_content ''required'' = ''**required**'' \<and> format_content ''mandatory'' = ''**mandatory**''"
  by code_simp

lemma permissive_keywords:
  "format_content ''may'' = ''*may*'' \<and> format_content ''optional'' = ''*optional*''
   \<and> format_content ''recommended'' = ''*recommended*''"
  by code_simp

lemma reference_example:
  "format_content ''per Section 5, Chapter 2, 1.2.3'' = ''per **Section 5**, **Chapter 2**, **1.2.3**''"
  by code_simp

lemma shall_example:
  "format_content ''Equipment shall be tested'' = ''Equipment **shall** be tested''"
  by code_simp

lemma may_example:
  "format_content ''testing MAY be deferred'' = ''testing *MAY* be deferred''"
  by code_simp

lemma upper_case_example:
  "format_content ''Tests SHALL be Required, repairs May follow''
     = ''Tests **SHALL** be **Required**, repairs *May* follow''"
  by code_simp

text \<open>
  Claim C3, as the code has it. Only the text pipeline runs the second pass. For every
  content, \<^verbatim>\<open>format_content\<close> first applies its list rules and then, from the left and one
  after the other, makes bold every x.y.z reference, every "Section N" and every
  "Chapter N" that stands between word boundaries; then every maximal run of word
  characters that is, whatever its case, one of the mandatory terms is made bold, and every
  one that is a permissive term is made italic; everything else is left as it is. The tree
  pipeline has no such pass: its inline text extractor wraps inline markup elements and
  normalizes whitespace only, so the text extracted from an element without emphasis
  elements, and the paragraph rendered from it, hold an asterisk only if the element's own
  text does, whatever keywords it holds.
\<close>

theorem keyword_pass_only_in_text_pipeline:
  "format_content c =
     mark_words emphasis_mark []
       (mark_all (phrase_ref ''Chapter '') ''**'' None
         (mark_all (phrase_ref ''Section '') ''**'' None
           (mark_all dotted_ref ''**'' None (format_lists c))))
   \<and> format_content ''shall'' = ''**shall**'' \<and> format_content ''must'' = ''**must**''
   \<and> format_content ''required'' = ''**required**'' \<and> format_content ''mandatory'' = ''**mandatory**''
   \<and> format_content ''may'' = ''*may*'' \<and> format_content ''optional'' = ''*optional*''
   \<and> format_content ''recommended'' = ''*recommended*''
   \<and> format_content ''per Section 5, Chapter 2, 1.2.3'' = ''per **Section 5**, **Chapter 2**, **1.2.3**''
   \<and> format_content ''Equipment shall be tested'' = ''Equipment **shall** be tested''
   \<and> format_content ''testing MAY be deferred'' = ''testing *MAY* be deferred''
   \<and> format_content ''Tests SHALL be Required, repairs May follow''
       = ''Tests **SHALL** be **Required**, repairs *May* follow''
   \<and> (markup_free e \<and> CHR ''*'' \<notin> set (texts e)
        \<longrightarrow> CHR ''*'' \<notin> set (extract_text_content e) \<and> CHR ''*'' \<notin> set (process_paragraph e))"
  using format_content_marks[of c]
    mandatory_keywords permissive_keywords reference_example shall_example may_example
    upper_case_example no_asterisk_extract[of e] no_asterisk_paragraph[of e]
  by blast

theorem keyword_pass_only_in_text_pipeline_witness:
  "markup_free (Element ''P'' [] (Some ''Equipment shall be tested'') None [])
   \<and> CHR ''*'' \<notin> set (texts (Element ''P'' [] (Some ''Equipment shall be tested'') None []))
   \<and> CHR ''*'' \<notin> set (process_paragraph (Element ''P'' [] (Some ''Equipment shall be tested'') None []))"
proof -
  have h: "markup_free (Element ''P'' [] (Some ''Equipment shall be tested'') None [])
     \<and> CHR ''*'' \<notin> set (texts (Element ''P'' [] (Some ''Equipment shall be tested'') None []))"
    by code_simp
  with keyword_pass_only_in_text_pipeline[of "[]" "Element ''P'' [] (Some ''Equipment shall be tested'') None []"]
  show ?thesis by blast
qed

text \<open>
  The claim C3 itself fails: a tree document whose paragraph holds the keyword "shall" is
  rendered with the keyword as it is, without emphasis markers.
\<close>

theorem tree_paragraph_keyword_unmarked:
  "fst (process_division initial_context
         (Element ''DIV8'' [(''TYPE'', ''SECTION'')] None None
            [Element ''P'' [] (Some ''Equipment shall be tested'') None []]))
     = [newline] @ ''Equipment shall be tested'' @ [newline]"
  by code_simp

section \<open>The matcher on the patterns of the program\<close>

text \<open>
  Every pattern that the program hands to \<^verbatim>\<open>re.sub\<close> consumes a character whenever it
  matches, so the substitution never meets an empty match; and every pattern of the
  segmenter's table captures its groups 1 and 2 whenever it matches, so number and title
  are always the text of a group.
\<close>

lemma mt_length:
  "x \<in> set (mt f r st) \<Longrightarrow>
   length (fst (snd x)) \<le> length (fst (snd st))
   \<and> (consumes r \<longrightarrow> length (fst (snd x)) < length (fst (snd st)))"
proof (induction f r st arbitrary: x rule: mt.induct)
  case (7 f a b st)
  from 7(3) obtain y where y: "y \<in> set (mt f a st)" and x: "x \<in> set (mt f b y)" by auto
  from 7(1)[OF y] 7(2)[OF y x] show ?case by auto
next
  case (8 f a b st)
  from 8(3) have "x \<in> set (mt f a st) \<or> x \<in> set (mt f b st)" by simp
  with 8(1)[of x] 8(2)[of x] show ?case by auto
next
  case (9 f r st)
  from 9(3) have "x = st \<or> (\<exists>y \<in> set (mt f r st). length (fst (snd y)) < length (fst (snd st))
        \<and> x \<in> set (mt f (Star r) y))"
    by (subst (asm) mt.simps(9)) (auto split: if_splits)
  then show ?case
  proof
    assume "x = st" then show ?thesis by simp
  next
    assume "\<exists>y \<in> set (mt f r st). length (fst (snd y)) < length (fst (snd st))
        \<and> x \<in> set (mt f (Star r) y)"
    then obtain y where y: "y \<in> set (mt f r st)" "length (fst (snd y)) < length (fst (snd st))"
      and x: "x \<in> set (mt f (Star r) y)" by blast
    from 9(2)[OF y x] y(2) show ?thesis by simp
  qed
next
  case (10 f r st)
  from 10(3) have "x = st \<or> (\<exists>y \<in> set (mt f r st). length (fst (snd y)) < length (fst (snd st))
        \<and> x \<in> set (mt f (LStar r) y))"
    by (subst (asm) mt.simps(10)) (auto split: if_splits)
  then show ?case
  proof
    assume "x = st" then show ?thesis by simp
  next
    assume "\<exists>y \<in> set (mt f r st). length (fst (snd y)) < length (fst (snd st))
        \<and> x \<in> set (mt f (LStar r) y)"
    then obtain y where y: "y \<in> set (mt f r st)" "length (fst (snd y)) < length (fst (snd st))"
      and x: "x \<in> set (mt f (LStar r) y)" by blast
    from 10(2)[OF y x] y(2) show ?thesis by simp
  qed
next
  case (11 f n r p s g)
  from 11(2) obtain y where y: "y \<in> set (mt f r (p, s, g))" and "fst (snd x) = fst (snd y)"
    by (auto simp: case_prod_unfold)
  with 11(1)[OF y] show ?case by simp
qed (auto split: list.splits if_splits)

lemma all_patterns_consume:
  "list_all consumes
     [re_blank_lines, re_hspace, re_hyphen, re_page, re_abs, re_part7,
      re_bullet, re_letter_item, re_number_item, re_xref, re_section_ref, re_chapter_ref,
      re_mandatory, re_permissive, re_ws_run, re_space_before_punct, re_sentence_end]"
  by (simp add: re_blank_lines_def re_hspace_def re_hyphen_def re_page_def re_abs_def re_part7_def
        re_bullet_def re_letter_item_def re_number_item_def re_xref_def re_section_ref_def
        re_chapter_ref_def re_mandatory_def re_permissive_def re_ws_run_def
        re_space_before_punct_def re_sentence_end_def lits_def)

lemma sub_from_consuming:
  assumes "consumes r"
  shows "sub_from f r t p s =
     (case mt f r (p, s, []) of
        [] \<Rightarrow> (case s of [] \<Rightarrow> [] | c # cs \<Rightarrow> c # sub_from f r t (Some c) cs)
      | (p', s', g) # _ \<Rightarrow> expand t g @ sub_from f r t p' s')"
proof (cases "mt f r (p, s, [])")
  case Nil
  then show ?thesis by (subst sub_from.simps) (simp add: Let_def split: list.splits)
next
  case (Cons m ms)
  then have "m \<in> set (mt f r (p, s, []))" by simp
  from mt_length[OF this] assms have "length (fst (snd m)) < length s" by simp
  with Cons show ?thesis
    by (subst sub_from.simps) (simp add: Let_def case_prod_unfold)
qed

lemma mt_binds:
  "x \<in> set (mt f r st) \<Longrightarrow> fst ` set (snd (snd st)) \<union> binds r \<subseteq> fst ` set (snd (snd x))"
proof (induction f r st arbitrary: x rule: mt.induct)
  case (7 f a b st)
  from 7(3) obtain y where y: "y \<in> set (mt f a st)" and x: "x \<in> set (mt f b y)" by auto
  from 7(1)[OF y] 7(2)[OF y x] show ?case unfolding binds.simps by blast
next
  case (8 f a b st)
  from 8(3) have "x \<in> set (mt f a st) \<or> x \<in> set (mt f b st)" by simp
  with 8(1)[of x] 8(2)[of x] show ?case unfolding binds.simps by blast
next
  case (9 f r st)
  from 9(3) have "x = st \<or> (\<exists>y \<in> set (mt f r st). length (fst (snd y)) < length (fst (snd st))
        \<and> x \<in> set (mt f (Star r) y))"
    by (subst (asm) mt.simps(9)) (auto split: if_splits)
  then show ?case
  proof
    assume "x = st" then show ?thesis by simp
  next
    assume "\<exists>y \<in> set (mt f r st). length (fst (snd y)) < length (fst (snd st))
        \<and> x \<in> set (mt f (Star r) y)"
    then obtain y where y: "y \<in> set (mt f r st)" "length (fst (snd y)) < length (fst (snd st))"
      and x: "x \<in> set (mt f (Star r) y)" by blast
    from 9(1)[OF y(1)] 9(2)[OF y x] show ?thesis unfolding binds.simps by blast
  qed
next
  case (10 f r st)
  from 10(3) have "x = st \<or> (\<exists>y \<in> set (mt f r st). length (fst (snd y)) < length (fst (snd st))
        \<and> x \<in> set (mt f (LStar r) y))"
    by (subst (asm) mt.simps(10)) (auto split: if_splits)
  then show ?case
  proof
    assume "x = st" then show ?thesis by simp
  next
    assume "\<exists>y \<in> set (mt f r st). length (fst (snd y)) < length (fst (snd st))
        \<and> x \<in> set (mt f (LStar r) y)"
    then obtain y where y: "y \<in> set (mt f r st)" "length (fst (snd y)) < length (fst (snd st))"
      and x: "x \<in> set (mt f (LStar r) y)" by blast
    from 10(1)[OF y(1)] 10(2)[OF y x] show ?thesis unfolding binds.simps by blast
  qed
next
  case (11 f n r p s g)
  from 11(2) obtain y where y: "y \<in> set (mt f r (p, s, g))"
    and "snd (snd x) = (n, take (length s - length (fst (snd y))) s) # snd (snd y)"
    by (auto simp: case_prod_unfold)
  with 11(1)[OF y] show ?case unfolding binds.simps by (simp only: snd_conv list.set image_insert fst_conv) blast
qed (auto split: list.splits if_splits)

lemma patterns_bind_groups: "list_all (\<lambda>pt. {1, 2} \<subseteq> binds (fst pt)) patterns"
  by (simp add: patterns_def pat_chapter_def pat_section_def pat_main_section_def
        pat_subsection_def pat_subsubsection_def pat_item_def pat_table_def pat_figure_def
        title_rest_def)

lemma match_groups_bound:
  assumes "(pattern, ty) \<in> set patterns" "re_match f pattern line = Some g"
  shows "map_of g 1 \<noteq> None \<and> map_of g 2 \<noteq> None"
proof -
  from assms(2) obtain p s ms where m: "mt f pattern (None, line, []) = (p, s, g) # ms"
    by (auto simp: re_match_def split: list.splits)
  then have "(p, s, g) \<in> set (mt f pattern (None, line, []))" by simp
  from mt_binds[OF this] have "binds pattern \<subseteq> fst ` set g" by simp
  moreover from assms(1) patterns_bind_groups have "{1, 2} \<subseteq> binds pattern"
    by (auto simp: list_all_iff)
  ultimately have "1 \<in> fst ` set g" "2 \<in> fst ` set g" by auto
  then show ?thesis by (simp add: map_of_eq_None_iff)
qed

end
